theory Spec2Isabelle
  imports Main
begin

section \<open>The online parser of src/utils/onlineParser.js\<close>

subsection \<open>Values\<close>

text \<open>
  A lexed token is the object \<open>{ kind, value }\<close> that \<open>lex\<close> returns.
\<close>

datatype token = Token (tkind: string) (tvalue: string)

text \<open>
  The numbers the parser stores: a step index, an indentation level. JavaScript
  arithmetic on them can leave the integers (\<open>undefined + 1\<close> is NaN, a division by a
  tab size of zero is Infinity), so both values are part of the type.
\<close>

datatype jsnum = NaN | PosInf | Num int

text \<open>The scratch fields \<open>name\<close> and \<open>type\<close>: undefined, null, or a string.\<close>

datatype scratch = Undefined | Null | Str string

datatype error = TypeError

text \<open>
  What stands at a position of a rule. A string names another rule; \<open>t\<close> and \<open>p\<close>
  build terminals \<open>{ style, match }\<close> (a grammar may add \<open>update\<close>); \<open>opt\<close> and
  \<open>list\<close> build wrappers \<open>{ ofRule, isList, separator }\<close>. The \<open>update\<close> callback
  of a terminal takes the parser state, whose rules hold terminals again, so a terminal
  carries a code \<open>'u\<close> for its callback and the grammar says what each code does
  (\<open>runUpdate\<close> below).
\<close>

datatype 'u item =
    RuleName string
  | Terminal "string option" "token \<Rightarrow> bool" "'u option"
  | Wrapper "'u item" bool "'u item option"

text \<open>
  A rule of \<open>ParseRules\<close> is an array of items or a function of the token and the
  stream (a forking rule). The functions a grammar supplies (\<open>match\<close>, a forking
  rule, \<open>update\<close>) are taken to return and to depend on their arguments only.
\<close>

datatype ('u, 's) ruledef = Seq "'u item list" | Fork "token \<Rightarrow> 's \<Rightarrow> 'u item option"

text \<open>
  The parser state is one object whose \<open>prevState\<close> field holds the copy of the
  state that \<open>pushRule\<close> made (\<open>assign({}, state)\<close>), which holds the previous copy
  in its own \<open>prevState\<close>, down to the object \<open>{ level: 0 }\<close> of \<open>startState\<close>.
  The copies are never written to, so the chain is the list of the copies, nearest
  first, and the empty list is \<open>prevState\<close> undefined. In a field of option type
  \<open>None\<close> is undefined; in \<open>needsAdvance\<close>, \<open>levels\<close> and \<open>indentLevel\<close>, which
  \<open>startState\<close> does not create, \<open>None\<close> is a key the object does not have. The
  other keys are own keys of every state, as \<open>pushRule\<close> writes all of them.
\<close>

record ('u, 's) frame =
  level :: int
  kind :: "string option"
  name :: scratch
  type :: scratch
  rule :: "('u, 's) ruledef option"
  step :: "jsnum option"
  needsSeperator :: "bool option"
  needsAdvance :: "bool option"
  levels :: "jsnum list option"
  indentLevel :: "jsnum option"

record ('u, 's) state = "('u, 's) frame" +
  prevState :: "('u, 's) frame list"

text \<open>
  The module-level object \<open>stateCache\<close>, which starts as \<open>{}\<close>: every key may be
  missing (\<open>None\<close>).
\<close>

record ('u, 's) stateCache =
  c_level :: "int option"
  c_prevState :: "('u, 's) frame list option"
  c_kind :: "string option option"
  c_name :: "scratch option"
  c_type :: "scratch option"
  c_rule :: "('u, 's) ruledef option option"
  c_step :: "jsnum option option"
  c_needsSeperator :: "bool option option"
  c_needsAdvance :: "bool option"
  c_levels :: "jsnum list option"
  c_indentLevel :: "jsnum option"

definition emptyCache :: "('u, 's) stateCache" where
  "emptyCache = \<lparr> c_level = None, c_prevState = None, c_kind = None, c_name = None,
     c_type = None, c_rule = None, c_step = None, c_needsSeperator = None,
     c_needsAdvance = None, c_levels = None, c_indentLevel = None \<rparr>"

text \<open>
  The options of \<open>onlineParser\<close>. \<open>LexRules\<close> keeps the order of its keys.
  \<open>eatWhitespace\<close> answers and moves the stream. \<open>runUpdate\<close> is the meaning of the
  \<open>update\<close> callbacks of the grammar's terminals.
\<close>

record ('u, 's, 'p) options =
  eatWhitespace :: "'s \<Rightarrow> bool \<times> 's"
  LexRules :: "(string \<times> 'p) list"
  ParseRules :: "string \<Rightarrow> ('u, 's) ruledef option"
  runUpdate :: "'u \<Rightarrow> ('u, 's) state \<Rightarrow> token \<Rightarrow> ('u, 's) state"

text \<open>
  The stream of the host editor, by the operations \<open>getToken\<close> calls on it:
  \<open>stream.sol()\<close>, \<open>stream.indentation()\<close>, \<open>stream.match(pattern)\<close> (the matched
  text and the stream moved past it, or nothing and the stream where it was),
  \<open>stream.skipToEnd()\<close> and \<open>stream.match(/\S+/)\<close>.
\<close>

record ('s, 'p) streamOps =
  sol :: "'s \<Rightarrow> bool"
  indentation :: "'s \<Rightarrow> nat"
  smatch :: "'p \<Rightarrow> 's \<Rightarrow> (string \<times> 's) option"
  skipToEnd :: "'s \<Rightarrow> 's"
  skipNonSpace :: "'s \<Rightarrow> 's"

text \<open>
  The object \<open>getToken\<close> runs on (\<open>this\<close>, passed as \<open>editor\<close>): \<open>tabSize\<close> is
  \<open>editor.config.tabSize\<close>, \<open>None\<close> when the object has no \<open>config\<close>.
\<close>

record 'p editor =
  tabSize :: "nat option"
  lineComment :: "'p option"

subsection \<open>Property reads and arithmetic of JavaScript\<close>

text \<open>\<open>xs[i]\<close>: undefined unless \<open>i\<close> is an index of the array.\<close>

fun at :: "'a list \<Rightarrow> jsnum option \<Rightarrow> 'a option" where
  "at xs (Some (Num i)) = (if 0 \<le> i \<and> nat i < length xs then Some (xs ! nat i) else None)"
| "at xs _ = None"

text \<open>\<open>x++\<close> and \<open>x + 1\<close> on a field that may be undefined.\<close>

fun plus1 :: "jsnum option \<Rightarrow> jsnum" where
  "plus1 (Some (Num i)) = Num (i + 1)"
| "plus1 (Some PosInf) = PosInf"
| "plus1 _ = NaN"

text \<open>\<open>a < b\<close>, false when either side is NaN or undefined.\<close>

fun js_less :: "jsnum option \<Rightarrow> jsnum option \<Rightarrow> bool" where
  "js_less (Some (Num a)) (Some (Num b)) = (a < b)"
| "js_less (Some (Num a)) (Some PosInf) = True"
| "js_less _ _ = False"

text \<open>\<open>Math.floor(a / b)\<close> for a column count and a tab size.\<close>

definition floor_div :: "nat \<Rightarrow> nat \<Rightarrow> jsnum" where
  "floor_div a b = (if b = 0 then (if a = 0 then NaN else PosInf) else Num (int (a div b)))"

text \<open>A value in a condition: undefined and the empty string are falsy.\<close>

fun truthy :: "'u item option \<Rightarrow> bool" where
  "truthy None = False"
| "truthy (Some (RuleName n)) = (n \<noteq> [])"
| "truthy (Some _) = True"

fun get_ofRule :: "'u item \<Rightarrow> 'u item option" where
  "get_ofRule (Wrapper r l s) = Some r"
| "get_ofRule _ = None"

fun get_isList :: "'u item \<Rightarrow> bool" where
  "get_isList (Wrapper r l s) = l"
| "get_isList _ = False"

fun get_separator :: "'u item \<Rightarrow> 'u item option" where
  "get_separator (Wrapper r l s) = s"
| "get_separator _ = None"

subsection \<open>The rule builders\<close>

definition opt :: "'u item \<Rightarrow> 'u item" where
  "opt ofRule = Wrapper ofRule False None"

definition list :: "'u item \<Rightarrow> 'u item option \<Rightarrow> 'u item" where
  "list ofRule separator = Wrapper ofRule True separator"

definition t :: "string \<Rightarrow> string option \<Rightarrow> 'u item" where
  "t kind' style = Terminal style (\<lambda>token. tkind token = kind') None"

definition p :: "string \<Rightarrow> string option \<Rightarrow> 'u item" where
  "p value' style =
     Terminal (Some (case style of None \<Rightarrow> ''punctuation''
                     | Some s \<Rightarrow> if s = [] then ''punctuation'' else s))
       (\<lambda>token. tkind token = ''Punctuation'' \<and> tvalue token = value') None"

subsection \<open>The rule stack\<close>

text \<open>\<open>pushRule\<close>: the copy of the state goes on the chain, the frame fields are reset.\<close>

definition pushRule ::
  "(string \<Rightarrow> ('u, 's) ruledef option) \<Rightarrow> ('u, 's) state \<Rightarrow> string \<Rightarrow> ('u, 's) state" where
  "pushRule ParseRules' state ruleKind =
     state\<lparr> prevState := frame.truncate state # prevState state,
            kind := Some ruleKind,
            name := Null,
            type := Null,
            rule := ParseRules' ruleKind,
            step := Some (Num 0),
            needsSeperator := Some False \<rparr>"

text \<open>
  \<open>popRule\<close> reads \<open>state.prevState.kind\<close> first, which throws a TypeError when
  \<open>prevState\<close> is undefined.
\<close>

definition popRule :: "('u, 's) state \<Rightarrow> error + ('u, 's) state" where
  "popRule state =
     (case prevState state of
        [] \<Rightarrow> Inl TypeError
      | f # fs \<Rightarrow>
          Inr (state\<lparr> kind := kind f, name := name f, type := type f, rule := rule f,
                      step := step f, needsSeperator := needsSeperator f,
                      prevState := fs \<rparr>))"

text \<open>
  \<open>isList\<close>: \<open>Array.isArray(state.rule) && state.rule[state.step].isList\<close>. Reading
  \<open>isList\<close> of an undefined element throws.
\<close>

definition isList :: "('u, 's) state \<Rightarrow> error + bool" where
  "isList state =
     (case rule state of
        Some (Seq xs) \<Rightarrow>
          (case at xs (step state) of
             None \<Rightarrow> Inl TypeError
           | Some it \<Rightarrow> Inr (get_isList it))
      | _ \<Rightarrow> Inr False)"

text \<open>\<open>state.rule[state.step].separator\<close> as a condition, read where \<open>isList\<close> holds.\<close>

definition hasSeparator :: "('u, 's) state \<Rightarrow> bool" where
  "hasSeparator state =
     (case rule state of
        Some (Seq xs) \<Rightarrow>
          (case at xs (step state) of
             None \<Rightarrow> False
           | Some it \<Rightarrow> truthy (get_separator it))
      | _ \<Rightarrow> False)"

text \<open>\<open>state.needsSeperator = !state.needsSeperator\<close>\<close>

definition toggleSeperator :: "('u, 's) state \<Rightarrow> ('u, 's) state" where
  "toggleSeperator state = state\<lparr> needsSeperator := Some (needsSeperator state \<noteq> Some True) \<rparr>"

text \<open>\<open>state.needsSeperator = false; state.step++\<close>\<close>

definition nextStep :: "('u, 's) state \<Rightarrow> ('u, 's) state" where
  "nextStep state = state\<lparr> needsSeperator := Some False, step := Some (plus1 (step state)) \<rparr>"

text \<open>
  The condition of the loop of \<open>advanceRule\<close>, under \<open>state.rule\<close>:
  \<open>!(Array.isArray(state.rule) && state.step < state.rule.length)\<close>.
\<close>

fun completed :: "('u, 's) ruledef \<Rightarrow> jsnum option \<Rightarrow> bool" where
  "completed (Seq xs) st = (\<not> js_less st (Some (Num (int (length xs)))))"
| "completed (Fork f) st = True"

lemma popRule_shorter:
  "popRule state = Inr state' \<Longrightarrow> length (prevState state') < length (prevState state)"
  by (auto simp: popRule_def split: list.splits)

text \<open>The loop of \<open>advanceRule\<close>: while the current rule is completed, pop it.\<close>

function whileCompleted :: "('u, 's) state \<Rightarrow> error + ('u, 's) state" where
  "whileCompleted state =
     (case rule state of
        None \<Rightarrow> Inr state
      | Some r \<Rightarrow>
          if \<not> completed r (step state) then Inr state
          else
            (case popRule state of
               Inl e \<Rightarrow> Inl e
             | Inr state1 \<Rightarrow>
                 (case rule state1 of
                    None \<Rightarrow> whileCompleted state1
                  | Some r1 \<Rightarrow>
                      (case isList state1 of
                         Inl e \<Rightarrow> Inl e
                       | Inr l \<Rightarrow>
                           if l then
                             whileCompleted
                               (if hasSeparator state1 then toggleSeperator state1 else state1)
                           else whileCompleted (nextStep state1)))))"
  by pat_completeness auto
termination
  by (relation "measure (\<lambda>state. length (prevState state))")
     (auto simp: toggleSeperator_def nextStep_def dest: popRule_shorter)

declare whileCompleted.simps [simp del]

definition advanceRule :: "('u, 's) state \<Rightarrow> bool \<Rightarrow> error + ('u, 's) state" where
  "advanceRule state successful =
     (case isList state of
        Inl e \<Rightarrow> Inl e
      | Inr l \<Rightarrow>
          (let state1 = (if l \<and> hasSeparator state then toggleSeperator state else state)
           in if l \<and> hasSeparator state \<and> needsSeperator state1 \<noteq> Some True then Inr state1
              else if l \<and> successful then Inr state1
              else whileCompleted (nextStep state1)))"

text \<open>
  The loop of \<open>unsuccessful\<close>: pop while there is a rule and
  \<open>!(Array.isArray(state.rule) && state.rule[state.step].ofRule)\<close>.
\<close>

function whileIntolerant :: "('u, 's) state \<Rightarrow> error + ('u, 's) state" where
  "whileIntolerant state =
     (case rule state of
        None \<Rightarrow> Inr state
      | Some (Fork f) \<Rightarrow>
          (case popRule state of Inl e \<Rightarrow> Inl e | Inr state1 \<Rightarrow> whileIntolerant state1)
      | Some (Seq xs) \<Rightarrow>
          (case at xs (step state) of
             None \<Rightarrow> Inl TypeError
           | Some it \<Rightarrow>
               if truthy (get_ofRule it) then Inr state
               else
                 (case popRule state of
                    Inl e \<Rightarrow> Inl e
                  | Inr state1 \<Rightarrow> whileIntolerant state1)))"
  by pat_completeness auto
termination
  by (relation "measure (\<lambda>state. length (prevState state))")
     (auto dest: popRule_shorter)

declare whileIntolerant.simps [simp del]

definition unsuccessful :: "('u, 's) state \<Rightarrow> error + ('u, 's) state" where
  "unsuccessful state =
     (case whileIntolerant state of
        Inl e \<Rightarrow> Inl e
      | Inr state1 \<Rightarrow>
          (case rule state1 of
             None \<Rightarrow> Inr state1
           | Some r \<Rightarrow> advanceRule state1 False))"

subsection \<open>The snapshot cache\<close>

text \<open>
  \<open>assign(to, from)\<close> writes every own key of \<open>from\<close> into \<open>to\<close> and leaves the
  other keys of \<open>to\<close> as they are. \<open>saveState\<close> is \<open>assign(stateCache, state)\<close>.
\<close>

definition saveState :: "('u, 's) stateCache \<Rightarrow> ('u, 's) state \<Rightarrow> ('u, 's) stateCache" where
  "saveState cache state =
     cache\<lparr> c_level := Some (level state),
            c_prevState := Some (prevState state),
            c_kind := Some (kind state),
            c_name := Some (name state),
            c_type := Some (type state),
            c_rule := Some (rule state),
            c_step := Some (step state),
            c_needsSeperator := Some (needsSeperator state),
            c_needsAdvance :=
              (case needsAdvance state of None \<Rightarrow> c_needsAdvance cache | Some v \<Rightarrow> Some v),
            c_levels := (case levels state of None \<Rightarrow> c_levels cache | Some v \<Rightarrow> Some v),
            c_indentLevel :=
              (case indentLevel state of None \<Rightarrow> c_indentLevel cache | Some v \<Rightarrow> Some v) \<rparr>"

text \<open>\<open>restoreState\<close> is \<open>assign(state, stateCache)\<close>.\<close>

definition restoreState :: "('u, 's) state \<Rightarrow> ('u, 's) stateCache \<Rightarrow> ('u, 's) state" where
  "restoreState state cache =
     state\<lparr> level := (case c_level cache of None \<Rightarrow> level state | Some v \<Rightarrow> v),
            prevState := (case c_prevState cache of None \<Rightarrow> prevState state | Some v \<Rightarrow> v),
            kind := (case c_kind cache of None \<Rightarrow> kind state | Some v \<Rightarrow> v),
            name := (case c_name cache of None \<Rightarrow> name state | Some v \<Rightarrow> v),
            type := (case c_type cache of None \<Rightarrow> type state | Some v \<Rightarrow> v),
            rule := (case c_rule cache of None \<Rightarrow> rule state | Some v \<Rightarrow> v),
            step := (case c_step cache of None \<Rightarrow> step state | Some v \<Rightarrow> v),
            needsSeperator :=
              (case c_needsSeperator cache of None \<Rightarrow> needsSeperator state | Some v \<Rightarrow> v),
            needsAdvance :=
              (case c_needsAdvance cache of None \<Rightarrow> needsAdvance state | Some v \<Rightarrow> Some v),
            levels := (case c_levels cache of None \<Rightarrow> levels state | Some v \<Rightarrow> Some v),
            indentLevel :=
              (case c_indentLevel cache of None \<Rightarrow> indentLevel state | Some v \<Rightarrow> Some v) \<rparr>"

subsection \<open>The lexer\<close>

text \<open>\<open>lex\<close>: the first rule of \<open>LexRules\<close> that matches gives the token.\<close>

fun lex :: "('s, 'p) streamOps \<Rightarrow> (string \<times> 'p) list \<Rightarrow> 's \<Rightarrow> (token \<times> 's) option" where
  "lex ops [] stream = None"
| "lex ops ((kind', pat) # kinds) stream =
     (case smatch ops pat stream of
        Some (text, stream') \<Rightarrow> Some (Token kind' text, stream')
      | None \<Rightarrow> lex ops kinds stream)"

subsection \<open>getToken\<close>

text \<open>
  The indentation bookkeeping of \<open>getToken\<close> for a punctuation token:
  \<open>/^[{([]/\<close> and \<open>/^[})\]]/\<close> test the first character of the token's value.
\<close>

definition opens :: "string \<Rightarrow> bool" where
  "opens v = (case v of [] \<Rightarrow> False | c # cs \<Rightarrow> c = CHR ''{'' \<or> c = CHR ''('' \<or> c = CHR ''['')"

definition closes :: "string \<Rightarrow> bool" where
  "closes v = (case v of [] \<Rightarrow> False | c # cs \<Rightarrow> c = CHR ''}'' \<or> c = CHR '')'' \<or> c = CHR '']'')"

definition indentChange :: "token \<Rightarrow> ('u, 's) state \<Rightarrow> ('u, 's) state" where
  "indentChange token state =
     (if tkind token = ''Punctuation'' then
        if opens (tvalue token) then
          state\<lparr> levels :=
            Some ((case levels state of None \<Rightarrow> [] | Some ls \<Rightarrow> ls) @ [plus1 (indentLevel state)]) \<rparr>
        else if closes (tvalue token) then
          (let levels' = butlast (case levels state of None \<Rightarrow> [] | Some ls \<Rightarrow> ls);
               state1 = state\<lparr> levels := Some levels' \<rparr>
           in if levels' \<noteq> [] \<and> js_less (Some (last levels')) (indentLevel state1)
              then state1\<lparr> indentLevel := Some (last levels') \<rparr>
              else state1)
        else state
      else state)"

text \<open>
  One pass of the body of \<open>while (state.rule)\<close> up to its decision: push the rule
  that a string names and go round again, accept the token with a terminal, or call
  \<open>unsuccessful\<close>.
\<close>

datatype 'u decision = Push string | Accept "string option" "'u option" | Reject

definition expectedItem :: "token \<Rightarrow> 's \<Rightarrow> ('u, 's) state \<Rightarrow> 'u item option" where
  "expectedItem token stream state =
     (let expected =
        (case rule state of
           None \<Rightarrow> None
         | Some (Fork f) \<Rightarrow> if step state = Some (Num 0) then f token stream else None
         | Some (Seq xs) \<Rightarrow> at xs (step state))
      in if needsSeperator state = Some True then
           (case expected of
              None \<Rightarrow> None
            | Some e \<Rightarrow> if truthy expected then get_separator e else expected)
         else expected)"

text \<open>\<open>if (expected.ofRule) expected = expected.ofRule\<close>\<close>

definition unwrap :: "'u item \<Rightarrow> 'u item" where
  "unwrap expected =
     (case get_ofRule expected of
        None \<Rightarrow> expected
      | Some r \<Rightarrow> if truthy (Some r) then r else expected)"

text \<open>
  What the loop does with the unwrapped item: a string is a rule to push, a terminal
  accepts the token when its \<open>match\<close> answers true, and anything else (a wrapper has no
  \<open>match\<close>) fails.
\<close>

fun attempt :: "'u item \<Rightarrow> token \<Rightarrow> 'u decision" where
  "attempt (RuleName n) token = Push n"
| "attempt (Terminal style match update) token =
     (if match token then Accept style update else Reject)"
| "attempt (Wrapper r l s) token = Reject"

definition decide :: "token \<Rightarrow> 's \<Rightarrow> ('u, 's) state \<Rightarrow> 'u decision" where
  "decide token stream state =
     (case expectedItem token stream state of
        None \<Rightarrow> Reject
      | Some e \<Rightarrow> if truthy (Some e) then attempt (unwrap e) token else Reject)"

text \<open>\<open>if (expected.update) expected.update(state, token)\<close>\<close>

definition callUpdate ::
  "('u, 's, 'p) options \<Rightarrow> 'u option \<Rightarrow> ('u, 's) state \<Rightarrow> token \<Rightarrow> ('u, 's) state" where
  "callUpdate options' update state token =
     (case update of
        None \<Rightarrow> state
      | Some u \<Rightarrow> runUpdate options' u state token)"

text \<open>How the loop ends: a \<open>return\<close> with a style, or \<open>state.rule\<close> falsy.\<close>

datatype ('u, 's) ended = Return "string option" "('u, 's) state" | Unwound "('u, 's) state"

partial_function (option) whileRule ::
  "('u, 's, 'p) options \<Rightarrow> token \<Rightarrow> 's \<Rightarrow> ('u, 's) state \<Rightarrow> (error + ('u, 's) ended) option" where
  "whileRule options' token stream state =
     (case rule state of
        None \<Rightarrow> Some (Inr (Unwound state))
      | Some r \<Rightarrow>
          (case decide token stream state of
             Push n \<Rightarrow> whileRule options' token stream (pushRule (ParseRules options') state n)
           | Accept style update \<Rightarrow>
               (let state1 = callUpdate options' update state token
                in if tkind token = ''Punctuation'' then
                     (case advanceRule state1 True of
                        Inl e \<Rightarrow> Some (Inl e)
                      | Inr state2 \<Rightarrow> Some (Inr (Return style state2)))
                   else Some (Inr (Return style (state1\<lparr> needsAdvance := Some True \<rparr>))))
           | Reject \<Rightarrow>
               (case unsuccessful state of
                  Inl e \<Rightarrow> Some (Inl e)
                | Inr state1 \<Rightarrow> whileRule options' token stream state1)))"

declare whileRule.simps [code]

text \<open>
  The start of \<open>getToken\<close>: the advance that the previous token left for this call.
\<close>

definition deferredAdvance :: "('u, 's) state \<Rightarrow> error + ('u, 's) state" where
  "deferredAdvance state =
     (if needsAdvance state = Some True
      then advanceRule (state\<lparr> needsAdvance := Some False \<rparr>) True
      else Inr state)"

text \<open>
  \<open>if (stream.sol()) state.indentLevel = Math.floor(stream.indentation() /
  editor.config.tabSize)\<close>; reading \<open>tabSize\<close> of an undefined \<open>config\<close> throws.
\<close>

definition initialIndent ::
  "('s, 'p) streamOps \<Rightarrow> 'p editor \<Rightarrow> 's \<Rightarrow> ('u, 's) state \<Rightarrow> error + ('u, 's) state" where
  "initialIndent ops editor' stream state =
     (if sol ops stream then
        (case tabSize editor' of
           None \<Rightarrow> Inl TypeError
         | Some n \<Rightarrow> Inr (state\<lparr> indentLevel := Some (floor_div (indentation ops stream) n) \<rparr>))
      else Inr state)"

text \<open>
  The rest of \<open>getToken\<close> once a token is lexed: save the state, change the
  indentation levels, run the rules, and restore the state when no rule is left.
  The result is the style, the state and the cache.
\<close>

definition interpretToken ::
  "('u, 's, 'p) options \<Rightarrow> token \<Rightarrow> 's \<Rightarrow> ('u, 's) state \<Rightarrow> ('u, 's) stateCache \<Rightarrow>
     (error + string option \<times> ('u, 's) state \<times> ('u, 's) stateCache) option" where
  "interpretToken options' token stream state cache =
     (let cache1 = saveState cache state;
          state1 = indentChange token state
      in case whileRule options' token stream state1 of
           None \<Rightarrow> None
         | Some (Inl e) \<Rightarrow> Some (Inl e)
         | Some (Inr (Return style state2)) \<Rightarrow> Some (Inr (style, state2, cache1))
         | Some (Inr (Unwound state2)) \<Rightarrow>
             Some (Inr (Some ''invalidchar'', restoreState state2 cache1, cache1)))"

text \<open>
  \<open>getToken\<close>: the style, the stream, the state and the cache after the call;
  \<open>None\<close> when the loop over the rules never ends.
\<close>

definition getToken ::
  "('u, 's, 'p) options \<Rightarrow> ('s, 'p) streamOps \<Rightarrow> 'p editor \<Rightarrow> 's \<Rightarrow> ('u, 's) state \<Rightarrow>
     ('u, 's) stateCache \<Rightarrow>
     (error + string option \<times> 's \<times> ('u, 's) state \<times> ('u, 's) stateCache) option" where
  "getToken options' ops editor' stream state cache =
     (case deferredAdvance state of
        Inl e \<Rightarrow> Some (Inl e)
      | Inr state1 \<Rightarrow>
     (case initialIndent ops editor' stream state1 of
        Inl e \<Rightarrow> Some (Inl e)
      | Inr state2 \<Rightarrow>
     (case eatWhitespace options' stream of
        (ws, stream1) \<Rightarrow>
          if ws then Some (Inr (Some ''ws'', stream1, state2, cache))
          else
     (case (case lineComment editor' of None \<Rightarrow> None | Some c \<Rightarrow> smatch ops c stream1) of
        Some (text, stream2) \<Rightarrow> Some (Inr (Some ''comment'', skipToEnd ops stream2, state2, cache))
      | None \<Rightarrow>
     (case lex ops (LexRules options') stream1 of
        None \<Rightarrow> Some (Inr (Some ''invalidchar'', skipNonSpace ops stream1, state2, cache))
      | Some (token, stream2) \<Rightarrow>
     (case interpretToken options' token stream2 state2 cache of
        None \<Rightarrow> None
      | Some (Inl e) \<Rightarrow> Some (Inl e)
      | Some (Inr (style, state3, cache1)) \<Rightarrow> Some (Inr (style, stream2, state3, cache1))))))))"

text \<open>\<open>startState\<close>: the object \<open>{ level: 0 }\<close>, then \<open>pushRule\<close> of \<open>Document\<close>.\<close>

definition initialState :: "('u, 's) state" where
  "initialState =
     \<lparr> level = 0, kind = None, name = Undefined, type = Undefined, rule = None, step = None,
       needsSeperator = None, needsAdvance = None, levels = None, indentLevel = None,
       prevState = [] \<rparr>"

definition startState :: "('u, 's, 'p) options \<Rightarrow> ('u, 's) state" where
  "startState options' = pushRule (ParseRules options') initialState ''Document''"

subsection \<open>Two notions for the statements below\<close>

text \<open>The loop over the rules ended with no rule left.\<close>

fun unwinds :: "(error + ('u, 's) ended) option \<Rightarrow> bool" where
  "unwinds (Some (Inr (Unwound state))) = True"
| "unwinds _ = False"

text \<open>The fields that no operation on the rule stack writes.\<close>

definition outside :: "('u, 's) state \<Rightarrow> int \<times> bool option \<times> jsnum list option \<times> jsnum option" where
  "outside state = (level state, needsAdvance state, levels state, indentLevel state)"

subsection \<open>Driving the parser\<close>

text \<open>
  The host calls \<open>getToken\<close> again and again on one stream and one state object
  (\<open>runMode\<close> of hint.js does so for every line). \<open>run n\<close> is \<open>n\<close> calls in a row:
  the styles in order, then the stream, the state and the cache after the last call.
\<close>

fun run ::
  "('u, 's, 'p) options \<Rightarrow> ('s, 'p) streamOps \<Rightarrow> 'p editor \<Rightarrow> nat \<Rightarrow> 's \<Rightarrow> ('u, 's) state \<Rightarrow>
     ('u, 's) stateCache \<Rightarrow>
     (error + string option list \<times> 's \<times> ('u, 's) state \<times> ('u, 's) stateCache) option" where
  "run options' ops editor' 0 stream state cache = Some (Inr ([], stream, state, cache))"
| "run options' ops editor' (Suc n) stream state cache =
     (case getToken options' ops editor' stream state cache of
        None \<Rightarrow> None
      | Some (Inl e) \<Rightarrow> Some (Inl e)
      | Some (Inr (style, stream1, state1, cache1)) \<Rightarrow>
          (case run options' ops editor' n stream1 state1 cache1 of
             None \<Rightarrow> None
           | Some (Inl e) \<Rightarrow> Some (Inl e)
           | Some (Inr (styles, rest)) \<Rightarrow> Some (Inr (style # styles, rest))))"

text \<open>What a caller sees of a run: everything but the module's cache.\<close>

fun seen ::
  "(error + 'a \<times> 's \<times> ('u, 's) state \<times> ('u, 's) stateCache) option \<Rightarrow>
     (error + 'a \<times> 's \<times> ('u, 's) state) option" where
  "seen None = None"
| "seen (Some (Inl e)) = Some (Inl e)"
| "seen (Some (Inr (a, stream, state, cache))) = Some (Inr (a, stream, state))"

text \<open>The parts of a result, for statements about one of them.\<close>

fun styleOf :: "(error + 'a \<times> 's \<times> ('u, 's) state \<times> ('u, 's) stateCache) option \<Rightarrow> 'a option" where
  "styleOf (Some (Inr (a, stream, state, cache))) = Some a"
| "styleOf _ = None"

fun stateOf ::
  "(error + 'a \<times> 's \<times> ('u, 's) state \<times> ('u, 's) stateCache) option \<Rightarrow> ('u, 's) state option" where
  "stateOf (Some (Inr (a, stream, state, cache))) = Some state"
| "stateOf _ = None"

fun cacheOf ::
  "(error + 'a \<times> 's \<times> ('u, 's) state \<times> ('u, 's) stateCache) option \<Rightarrow> ('u, 's) stateCache" where
  "cacheOf (Some (Inr (a, stream, state, cache))) = cache"
| "cacheOf _ = emptyCache"

subsection \<open>A host and two grammars for concrete runs\<close>

text \<open>
  A line already cut into lexemes: whether the stream is at the start of the line, and
  the lexemes still to read. A pattern is a test of the next lexeme.
\<close>

type_synonym lexemes = "bool \<times> string list"

definition lexemeOps :: "(lexemes, string \<Rightarrow> bool) streamOps" where
  "lexemeOps =
     \<lparr> sol = fst,
       indentation = (\<lambda>s. 0),
       smatch = (\<lambda>pat s. case snd s of
                            [] \<Rightarrow> None
                          | x # r \<Rightarrow> if pat x then Some (x, (False, r)) else None),
       skipToEnd = (\<lambda>s. (False, [])),
       skipNonSpace = (\<lambda>s. (False, tl (snd s))) \<rparr>"

definition eatSpace :: "lexemes \<Rightarrow> bool \<times> lexemes" where
  "eatSpace s =
     (case snd s of
        [] \<Rightarrow> (False, s)
      | x # r \<Rightarrow> if x = '' '' then (True, (False, r)) else (False, s))"

definition isPunct :: "string \<Rightarrow> bool" where
  "isPunct x = (x \<in> set [''['', '']'', '','', ''{'', ''}'', ''('', '')'', ''!''])"

definition isNumber :: "string \<Rightarrow> bool" where
  "isNumber x = (x \<in> set [''1'', ''2'', ''3''])"

definition isName :: "string \<Rightarrow> bool" where
  "isName x = (x \<in> set [''foo'', ''bar''])"

definition isHash :: "string \<Rightarrow> bool" where
  "isHash x = (x = ''#'')"

definition lexRules :: "(string \<times> (string \<Rightarrow> bool)) list" where
  "lexRules = [(''Punctuation'', isPunct), (''Number'', isNumber), (''Name'', isName)]"

text \<open>
  The bracketed number list:
  \<open>Document: [p('['), list(t('Number', 'number'), p(',')), p(']')]\<close>.
\<close>

definition numberList :: "(unit, lexemes, string \<Rightarrow> bool) options" where
  "numberList =
     \<lparr> eatWhitespace = eatSpace,
       LexRules = lexRules,
       ParseRules = (\<lambda>n. if n = ''Document''
          then Some (Seq [p ''['' None,
                          list (t ''Number'' (Some ''number'')) (Some (p '','' None)),
                          p '']'' None])
          else None),
       runUpdate = (\<lambda>u s token. s) \<rparr>"

text \<open>
  A grammar with a rule inside a rule:
  \<open>Document: [list('Block')], Block: [p('{'), opt(t('Name', 'property')), p('}')]\<close>.
\<close>

definition blocks :: "(unit, lexemes, string \<Rightarrow> bool) options" where
  "blocks =
     \<lparr> eatWhitespace = eatSpace,
       LexRules = lexRules,
       ParseRules = (\<lambda>n.
          if n = ''Document'' then Some (Seq [list (RuleName ''Block'') None])
          else if n = ''Block''
          then Some (Seq [p ''{'' None, opt (t ''Name'' (Some ''property'')), p ''}'' None])
          else None),
       runUpdate = (\<lambda>u s token. s) \<rparr>"

definition mode :: "(string \<Rightarrow> bool) editor" where
  "mode = \<lparr> tabSize = Some 2, lineComment = Some isHash \<rparr>"

text \<open>The state of the number-list parser after the opening bracket.\<close>

definition afterOpen :: "(unit, lexemes) state" where
  "afterOpen = (startState numberList)\<lparr> step := Some (Num 1), levels := Some [Num 1], indentLevel := Some (Num 0) \<rparr>"

subsection \<open>Unwinding, in the words of the specification\<close>

text \<open>
  A frame tolerates a failure when its rule is a sequence whose item at the current
  step is an \<open>opt\<close> or \<open>list\<close> wrapper.
\<close>

definition tolerant :: "('u, 's) state \<Rightarrow> bool" where
  "tolerant state =
     (case rule state of
        Some (Seq xs) \<Rightarrow>
          (case at xs (step state) of
             None \<Rightarrow> False
           | Some it \<Rightarrow> truthy (get_ofRule it))
      | _ \<Rightarrow> False)"

text \<open>Pop \<open>k\<close> frames.\<close>

fun pops :: "nat \<Rightarrow> ('u, 's) state \<Rightarrow> error + ('u, 's) state" where
  "pops 0 state = Inr state"
| "pops (Suc k) state =
     (case popRule state of
        Inl e \<Rightarrow> Inl e
      | Inr state1 \<Rightarrow> pops k state1)"

text \<open>The state of the blocks parser when the rule \<open>Block\<close> has just been pushed.\<close>

definition inBlock :: "(unit, lexemes) state" where
  "inBlock = pushRule (ParseRules blocks) (startState blocks) ''Block''"

text \<open>A list frame whose next expected item is its separator.\<close>

definition awaitsSeparator :: "('u, 's) state \<Rightarrow> bool" where
  "awaitsSeparator state =
     (isList state = Inr True \<and> hasSeparator state \<and> needsSeperator state = Some True)"

text \<open>The style with which the loop over the rules returned.\<close>

fun returns :: "(error + ('u, 's) ended) option \<Rightarrow> string option option" where
  "returns (Some (Inr (Return style state))) = Some style"
| "returns _ = None"

text \<open>The state of the blocks parser at the optional name of a block.\<close>

definition atOption :: "(unit, lexemes) state" where
  "atOption = inBlock\<lparr> step := Some (Num 1) \<rparr>"

subsection \<open>butNot and the terminal it changes\<close>

text \<open>
  \<open>butNot\<close> assigns to the \<open>match\<close> property of the object it is given, so the
  terminals are objects in a heap here, named by their addresses. The function in a
  \<open>match\<close> property is either one that reads no terminal (the arrow functions of \<open>t\<close>
  and \<open>p\<close>, or a grammar's own), or the arrow function \<open>butNot\<close> makes, which holds
  the previous function \<open>ruleMatch\<close> and the array \<open>exclusions\<close> and reads the
  \<open>match\<close> property of each exclusion when it is called.
\<close>

datatype matcher = Native "token \<Rightarrow> bool" | ButNot matcher "nat list"

record 'u terminal =
  t_style :: "string option"
  t_match :: matcher
  t_update :: "'u option"

definition butNot ::
  "(nat \<Rightarrow> 'u terminal) \<Rightarrow> nat \<Rightarrow> nat list \<Rightarrow> (nat \<Rightarrow> 'u terminal) \<times> nat" where
  "butNot heap rule' exclusions =
     (let ruleMatch = t_match (heap rule')
      in (heap (rule' := (heap rule')\<lparr> t_match := ButNot ruleMatch exclusions \<rparr>), rule'))"

text \<open>
  Calling the function of a \<open>match\<close> property in a heap. \<open>Match m\<close> is the call
  \<open>m(token)\<close>; \<open>Every es\<close> is \<open>es.every(exclusion => !exclusion.match(token))\<close>,
  which stops at the first exclusion that matches. Both \<open>&&\<close> and \<open>every\<close> cut short.
  A terminal that excludes itself calls itself for ever: the result is \<open>None\<close>.
\<close>

datatype call = Match matcher | Every "nat list"

partial_function (option) callMatch ::
  "(nat \<Rightarrow> 'u terminal) \<Rightarrow> token \<Rightarrow> call \<Rightarrow> bool option" where
  "callMatch heap token c =
     (case c of
        Match (Native f) \<Rightarrow> Some (f token)
      | Match (ButNot ruleMatch exclusions) \<Rightarrow>
          Option.bind (callMatch heap token (Match ruleMatch))
            (\<lambda>b. if b then callMatch heap token (Every exclusions) else Some False)
      | Every [] \<Rightarrow> Some True
      | Every (e # es) \<Rightarrow>
          Option.bind (callMatch heap token (Match (t_match (heap e))))
            (\<lambda>b. if \<not> b then callMatch heap token (Every es) else Some False))"

declare callMatch.simps [code]

text \<open>Three terminals: any name, the word \<open>on\<close>, the word \<open>true\<close>.\<close>

definition words :: "nat \<Rightarrow> unit terminal" where
  "words a =
     (if a = 0 then \<lparr> t_style = Some ''property'',
                      t_match = Native (\<lambda>token. tkind token = ''Name''), t_update = None \<rparr>
      else if a = 1 then \<lparr> t_style = Some ''keyword'',
                      t_match = Native (\<lambda>token. tkind token = ''Name'' \<and> tvalue token = ''on''),
                      t_update = None \<rparr>
      else \<lparr> t_style = Some ''keyword'',
             t_match = Native (\<lambda>token. tkind token = ''Name'' \<and> tvalue token = ''true''),
             t_update = None \<rparr>)"

subsection \<open>What the cache may hold when a parse is taken up again\<close>

text \<open>
  The cache is stale for a state when it holds a \<open>needsAdvance\<close>, \<open>levels\<close> or
  \<open>indentLevel\<close> that the state does not have: \<open>saveState\<close> will not overwrite that
  entry, and \<open>restoreState\<close> will write it into the state.
\<close>

definition stale :: "('u, 's) stateCache \<Rightarrow> ('u, 's) state \<Rightarrow> bool" where
  "stale cache state =
     ((c_needsAdvance cache \<noteq> None \<and> needsAdvance state = None) \<or>
      (c_levels cache \<noteq> None \<and> levels state = None) \<or>
      (c_indentLevel cache \<noteq> None \<and> indentLevel state = None))"

text \<open>The second state has the fields of the three that the first one has.\<close>

definition grows :: "('u, 's) state \<Rightarrow> ('u, 's) state \<Rightarrow> bool" where
  "grows state state' =
     ((needsAdvance state \<noteq> None \<longrightarrow> needsAdvance state' \<noteq> None) \<and>
      (levels state \<noteq> None \<longrightarrow> levels state' \<noteq> None) \<and>
      (indentLevel state \<noteq> None \<longrightarrow> indentLevel state' \<noteq> None))"

text \<open>No \<open>update\<close> callback of the grammar removes one of the three fields.\<close>

definition keepsFields :: "('u, 's, 'p) options \<Rightarrow> bool" where
  "keepsFields options' = (\<forall>u state token. grows state (runUpdate options' u state token))"

fun streamOf :: "(error + 'a \<times> 's \<times> ('u, 's) state \<times> ('u, 's) stateCache) option \<Rightarrow> 's option" where
  "streamOf (Some (Inr (a, stream, state, cache))) = Some stream"
| "streamOf _ = None"

section \<open>Properties\<close>

subsection \<open>Saving and restoring\<close>

lemma interpretToken_Unwound:
  "whileRule options' token stream (indentChange token state) = Some (Inr (Unwound stateU)) \<Longrightarrow>
   interpretToken options' token stream state cache =
     Some (Inr (Some ''invalidchar'', restoreState stateU (saveState cache state),
                saveState cache state))"
  by (simp add: interpretToken_def Let_def)

lemma interpretToken_Return:
  "whileRule options' token stream (indentChange token state) = Some (Inr (Return style state2)) \<Longrightarrow>
   interpretToken options' token stream state cache =
     Some (Inr (style, state2, saveState cache state))"
  by (simp add: interpretToken_def Let_def)

lemma restore_save_frame:
  "level (restoreState stateU (saveState cache state)) = level state"
  "prevState (restoreState stateU (saveState cache state)) = prevState state"
  "kind (restoreState stateU (saveState cache state)) = kind state"
  "name (restoreState stateU (saveState cache state)) = name state"
  "type (restoreState stateU (saveState cache state)) = type state"
  "rule (restoreState stateU (saveState cache state)) = rule state"
  "step (restoreState stateU (saveState cache state)) = step state"
  "needsSeperator (restoreState stateU (saveState cache state)) = needsSeperator state"
  by (simp_all add: restoreState_def saveState_def)

lemma restore_save_optional:
  "needsAdvance (restoreState stateU (saveState cache state)) =
     (case needsAdvance state of
        Some v \<Rightarrow> Some v
      | None \<Rightarrow> (case c_needsAdvance cache of Some v \<Rightarrow> Some v | None \<Rightarrow> needsAdvance stateU))"
  "levels (restoreState stateU (saveState cache state)) =
     (case levels state of
        Some v \<Rightarrow> Some v
      | None \<Rightarrow> (case c_levels cache of Some v \<Rightarrow> Some v | None \<Rightarrow> levels stateU))"
  "indentLevel (restoreState stateU (saveState cache state)) =
     (case indentLevel state of
        Some v \<Rightarrow> Some v
      | None \<Rightarrow> (case c_indentLevel cache of Some v \<Rightarrow> Some v | None \<Rightarrow> indentLevel stateU))"
  by (simp_all add: restoreState_def saveState_def split: option.splits)

lemma restore_save_full:
  fixes state :: "('u, 's) state"
  assumes "needsAdvance state \<noteq> None" "levels state \<noteq> None" "indentLevel state \<noteq> None"
  shows "restoreState stateU (saveState cache state) = state"
  using assms by (cases state, cases stateU) (auto simp: restoreState_def saveState_def)

subsection \<open>The state of startState\<close>

text \<open>
  C9, as the code has it. \<open>startState\<close> returns a fresh state with the root frame
  pushed for the rule \<open>Document\<close> at step 0, over the copy of \<open>{ level: 0 }\<close>. The
  state has the field \<open>level\<close>, which is 0, and no field \<open>levels\<close>, \<open>indentLevel\<close>
  or \<open>needsAdvance\<close> yet.
\<close>

theorem startState_fields:
  "level (startState options') = 0 \<and>
   levels (startState options') = None \<and>
   indentLevel (startState options') = None \<and>
   needsAdvance (startState options') = None \<and>
   kind (startState options') = Some ''Document'' \<and>
   rule (startState options') = ParseRules options' ''Document'' \<and>
   step (startState options') = Some (Num 0) \<and>
   name (startState options') = Null \<and>
   type (startState options') = Null \<and>
   needsSeperator (startState options') = Some False \<and>
   prevState (startState options') = [frame.truncate (initialState :: ('u, 's) state)]"
  by (simp add: startState_def pushRule_def initialState_def)

text \<open>
  C9 as stated fails: for the number-list grammar, \<open>levels\<close> of the start state is not
  the empty list and \<open>indentLevel\<close> is not 0 (both are missing).
\<close>

theorem startState_levels_counterexample:
  "levels (startState numberList) \<noteq> Some [] \<and>
   indentLevel (startState numberList) \<noteq> Some (Num 0)"
  by (simp add: startState_def pushRule_def initialState_def)

subsection \<open>A token that no rule accepts\<close>

text \<open>
  C1 at an input where the code does not restore the state: the first token of a
  document is \<open>(\<close>, which the number-list grammar does not accept. The token is
  lexed, the loop over the rules ends with no rule left, and \<open>getToken\<close> answers
  \<open>invalidchar\<close>; the state had no \<open>levels\<close> before the call and has \<open>levels = [1]\<close>
  after it, because \<open>stateCache\<close> had no key \<open>levels\<close> to write back.
\<close>

theorem unrecognized_opener_leaves_levels:
  "lex lexemeOps (LexRules numberList) (True, [''(''])
     = Some (Token ''Punctuation'' ''('', (False, [])) \<and>
   unwinds (whileRule numberList (Token ''Punctuation'' ''('') (False, [])
      (indentChange (Token ''Punctuation'' ''('')
         ((startState numberList)\<lparr> indentLevel := Some (Num 0) \<rparr>))) \<and>
   styleOf (getToken numberList lexemeOps mode (True, [''('']) (startState numberList) emptyCache)
     = Some (Some ''invalidchar'') \<and>
   levels (startState numberList) = None \<and>
   map_option levels
     (stateOf (getToken numberList lexemeOps mode (True, [''('']) (startState numberList) emptyCache))
     = Some (Some [Num 1])"
  by code_simp

subsection \<open>The rule stack leaves the other fields alone\<close>

lemma outside_simps [simp]:
  "outside (toggleSeperator state) = outside state"
  "outside (nextStep state) = outside state"
  "outside (pushRule rules state n) = outside state"
  by (simp_all add: outside_def toggleSeperator_def nextStep_def pushRule_def)

lemma popRule_outside: "popRule state = Inr state' \<Longrightarrow> outside state' = outside state"
  by (auto simp: popRule_def outside_def split: list.splits)

lemma whileCompleted_outside: "whileCompleted state = Inr state' \<Longrightarrow> outside state' = outside state"
proof (induction state rule: whileCompleted.induct)
  case (1 state)
  show ?case
  proof (cases "rule state")
    case None
    with "1.prems" show ?thesis by (simp add: whileCompleted.simps)
  next
    case (Some r)
    show ?thesis
    proof (cases "completed r (step state)")
      case False
      with Some "1.prems" show ?thesis by (simp add: whileCompleted.simps)
    next
      case True
      show ?thesis
      proof (cases "popRule state")
        case (Inl e)
        with Some True "1.prems" show ?thesis by (simp add: whileCompleted.simps)
      next
        case (Inr state1)
        note pop = popRule_outside [OF Inr]
        show ?thesis
        proof (cases "rule state1")
          case None
          with Some True Inr "1.prems" have "whileCompleted state1 = Inr state'"
            by (simp add: whileCompleted.simps [of state])
          from "1.IH"(1) [OF Some _ Inr None this] True pop show ?thesis by simp
        next
          case r1: (Some r1)
          show ?thesis
          proof (cases "isList state1")
            case (Inl e)
            with Some True Inr r1 "1.prems" show ?thesis by (simp add: whileCompleted.simps [of state])
          next
            case l: (Inr l)
            show ?thesis
            proof (cases l)
              case True
              with Some \<open>completed r (step state)\<close> Inr r1 l "1.prems"
              have "whileCompleted (if hasSeparator state1 then toggleSeperator state1 else state1) = Inr state'"
                by (simp add: whileCompleted.simps [of state])
              from "1.IH"(2) [OF Some _ Inr r1 l True this] \<open>completed r (step state)\<close> pop
              show ?thesis by (simp split: if_splits)
            next
              case False
              with Some \<open>completed r (step state)\<close> Inr r1 l "1.prems"
              have "whileCompleted (nextStep state1) = Inr state'"
                by (simp add: whileCompleted.simps [of state])
              from "1.IH"(3) [OF Some _ Inr r1 l False this] \<open>completed r (step state)\<close> pop
              show ?thesis by simp
            qed
          qed
        qed
      qed
    qed
  qed
qed


lemma advanceRule_outside: "advanceRule state b = Inr state' \<Longrightarrow> outside state' = outside state"
  unfolding advanceRule_def Let_def
  by (cases "isList state") (auto split: if_splits dest!: whileCompleted_outside)

lemma whileIntolerant_outside: "whileIntolerant state = Inr state' \<Longrightarrow> outside state' = outside state"
proof (induction state rule: whileIntolerant.induct)
  case (1 state)
  show ?case
  proof (cases "rule state")
    case None
    with "1.prems" show ?thesis by (simp add: whileIntolerant.simps)
  next
    case (Some r)
    show ?thesis
    proof (cases r)
      case (Fork f)
      show ?thesis
      proof (cases "popRule state")
        case (Inl e)
        with Some Fork "1.prems" show ?thesis by (simp add: whileIntolerant.simps)
      next
        case (Inr state1)
        with Some Fork "1.prems" have "whileIntolerant state1 = Inr state'"
          by (simp add: whileIntolerant.simps [of state])
        from "1.IH"(2) [OF Some Fork Inr this] popRule_outside [OF Inr] show ?thesis by simp
      qed
    next
      case (Seq xs)
      show ?thesis
      proof (cases "at xs (step state)")
        case None
        with Some Seq "1.prems" show ?thesis by (simp add: whileIntolerant.simps)
      next
        case it: (Some it)
        show ?thesis
        proof (cases "truthy (get_ofRule it)")
          case True
          with Some Seq it "1.prems" show ?thesis by (simp add: whileIntolerant.simps)
        next
          case False
          show ?thesis
          proof (cases "popRule state")
            case (Inl e)
            with Some Seq it False "1.prems" show ?thesis by (simp add: whileIntolerant.simps)
          next
            case (Inr state1)
            with Some Seq it False "1.prems" have "whileIntolerant state1 = Inr state'"
              by (simp add: whileIntolerant.simps [of state])
            from "1.IH"(1) [OF Some Seq it False Inr this] popRule_outside [OF Inr]
            show ?thesis by simp
          qed
        qed
      qed
    qed
  qed
qed

lemma unsuccessful_outside: "unsuccessful state = Inr state' \<Longrightarrow> outside state' = outside state"
  unfolding unsuccessful_def
  by (cases "whileIntolerant state")
     (auto split: option.splits dest!: whileIntolerant_outside advanceRule_outside)

lemma deferredAdvance_fields:
  assumes "deferredAdvance state = Inr state1"
  shows "level state1 = level state"
    and "levels state1 = levels state"
    and "indentLevel state1 = indentLevel state"
    and "needsAdvance state1 = (if needsAdvance state = Some True then Some False else needsAdvance state)"
  using assms advanceRule_outside [of "state\<lparr> needsAdvance := Some False \<rparr>" True state1]
  by (auto simp: deferredAdvance_def outside_def split: if_splits)

subsection \<open>One pass of the loop\<close>

lemma whileRule_Accept:
  assumes "rule state = Some r" and "decide token stream state = Accept style update"
  shows "whileRule options' token stream state =
     (if tkind token = ''Punctuation'' then
        (case advanceRule (callUpdate options' update state token) True of
           Inl e \<Rightarrow> Some (Inl e)
         | Inr state2 \<Rightarrow> Some (Inr (Return style state2)))
      else Some (Inr (Return style ((callUpdate options' update state token)\<lparr> needsAdvance := Some True \<rparr>))))"
  using assms by (subst whileRule.simps) (simp add: Let_def)

lemma whileRule_Push:
  assumes "rule state = Some r" and "decide token stream state = Push n"
  shows "whileRule options' token stream state =
     whileRule options' token stream (pushRule (ParseRules options') state n)"
  using assms by (subst whileRule.simps) simp

lemma whileRule_Reject:
  assumes "rule state = Some r" and "decide token stream state = Reject"
  shows "whileRule options' token stream state =
     (case unsuccessful state of
        Inl e \<Rightarrow> Some (Inl e)
      | Inr state1 \<Rightarrow> whileRule options' token stream state1)"
  using assms by (subst whileRule.simps) simp

lemma whileRule_None:
  "rule state = None \<Longrightarrow> whileRule options' token stream state = Some (Inr (Unwound state))"
  by (subst whileRule.simps) simp




lemma numberList_rule: "ParseRules numberList ''Document'' =
   Some (Seq [p ''['' None, list (t ''Number'' (Some ''number'')) (Some (p '','' None)), p '']'' None])"
  by (simp add: numberList_def)

lemma whileCompleted_stop:
  "rule state = None \<Longrightarrow> whileCompleted state = Inr state"
  "rule state = Some r \<Longrightarrow> \<not> completed r (step state) \<Longrightarrow> whileCompleted state = Inr state"
  by (simp_all add: whileCompleted.simps)

lemma whileIntolerant_stop:
  "rule state = None \<Longrightarrow> whileIntolerant state = Inr state"
  "rule state = Some (Seq xs) \<Longrightarrow> at xs (step state) = Some it \<Longrightarrow> truthy (get_ofRule it) \<Longrightarrow>
     whileIntolerant state = Inr state"
  by (simp_all add: whileIntolerant.simps)



subsection \<open>Whitespace and comments\<close>

text \<open>
  C5, as the code has it. When \<open>getToken\<close> consumes whitespace or a line comment it
  always returns, with the style \<open>ws\<close> or \<open>comment\<close>, and it does not write the
  cache. The state it leaves is the one after the two steps that come before the
  whitespace test: the deferred advance when \<open>needsAdvance\<close> was set, and
  \<open>indentLevel\<close> computed again at the start of a line. \<open>level\<close> and \<open>levels\<close> are
  never changed. When \<open>needsAdvance\<close> is not set and the stream is not at the start of
  a line, the state is unchanged in every field.
\<close>

theorem whitespace_or_comment_call:
  assumes "eatWhitespace options' stream = (ws, stream1)"
    and "ws \<or> (lineComment editor' = Some c \<and> smatch ops c stream1 = Some (text, stream2))"
  shows "getToken options' ops editor' stream state cache \<noteq> None \<and>
         (needsAdvance state \<noteq> Some True \<and> \<not> sol ops stream \<longrightarrow>
            getToken options' ops editor' stream state cache =
              Some (Inr (Some (if ws then ''ws'' else ''comment''),
                         (if ws then stream1 else skipToEnd ops stream2), state, cache))) \<and>
         (\<forall>style stream' state' cache'.
            getToken options' ops editor' stream state cache = Some (Inr (style, stream', state', cache')) \<longrightarrow>
              style = Some (if ws then ''ws'' else ''comment'') \<and>
              cache' = cache \<and>
              level state' = level state \<and>
              levels state' = levels state \<and>
              (\<exists>state1. deferredAdvance state = Inr state1 \<and>
                         initialIndent ops editor' stream state1 = Inr state'))"
proof (cases "deferredAdvance state")
  case (Inl e)
  then have "needsAdvance state = Some True" by (auto simp: deferredAdvance_def split: if_splits)
  with Inl show ?thesis by (simp add: getToken_def)
next
  case d: (Inr state1)
  show ?thesis
  proof (cases "initialIndent ops editor' stream state1")
    case (Inl e)
    then have "sol ops stream" by (auto simp: initialIndent_def split: if_splits)
    with d Inl show ?thesis by (simp add: getToken_def)
  next
    case i: (Inr state2)
    have res: "getToken options' ops editor' stream state cache =
        Some (Inr (Some (if ws then ''ws'' else ''comment''),
                   (if ws then stream1 else skipToEnd ops stream2), state2, cache))"
    proof (cases ws)
      case True
      with assms(1) d i show ?thesis by (simp add: getToken_def)
    next
      case False
      with assms(2) have "lineComment editor' = Some c" "smatch ops c stream1 = Some (text, stream2)"
        by simp_all
      with False assms(1) d i show ?thesis by (simp add: getToken_def)
    qed
    have same: "state2 = state" if "needsAdvance state \<noteq> Some True" "\<not> sol ops stream"
      using that d i by (simp add: deferredAdvance_def initialIndent_def)
    have "level state2 = level state1" "levels state2 = levels state1"
      using i by (auto simp: initialIndent_def split: if_splits option.splits)
    with deferredAdvance_fields [OF d]
    have keep: "level state2 = level state" "levels state2 = levels state" by simp_all
    have 1: "getToken options' ops editor' stream state cache \<noteq> None"
      by (simp add: res)
    have 2: "needsAdvance state \<noteq> Some True \<and> \<not> sol ops stream \<longrightarrow>
            getToken options' ops editor' stream state cache =
              Some (Inr (Some (if ws then ''ws'' else ''comment''),
                         (if ws then stream1 else skipToEnd ops stream2), state, cache))"
      using same res by simp
    have 3: "\<forall>style stream' state' cache'.
            getToken options' ops editor' stream state cache = Some (Inr (style, stream', state', cache')) \<longrightarrow>
              style = Some (if ws then ''ws'' else ''comment'') \<and>
              cache' = cache \<and>
              level state' = level state \<and>
              levels state' = levels state \<and>
              (\<exists>state1. deferredAdvance state = Inr state1 \<and>
                         initialIndent ops editor' stream state1 = Inr state')"
      unfolding res using keep d i by simp
    from 1 2 3 show ?thesis by blast
  qed
qed

text \<open>
  C5 as stated fails: a whitespace call on the state right after the number \<open>1\<close> of
  \<open>[1\<close> clears \<open>needsAdvance\<close> and sets \<open>needsSeperator\<close>.
\<close>

theorem whitespace_call_counterexample:
  "styleOf (getToken numberList lexemeOps mode (False, ['' ''])
      (afterOpen\<lparr> needsAdvance := Some True \<rparr>) emptyCache) = Some (Some ''ws'') \<and>
   needsAdvance (afterOpen\<lparr> needsAdvance := Some True \<rparr>) = Some True \<and>
   map_option needsAdvance (stateOf (getToken numberList lexemeOps mode (False, ['' ''])
      (afterOpen\<lparr> needsAdvance := Some True \<rparr>) emptyCache)) = Some (Some False) \<and>
   needsSeperator (afterOpen\<lparr> needsAdvance := Some True \<rparr>) = Some False \<and>
   map_option needsSeperator (stateOf (getToken numberList lexemeOps mode (False, ['' ''])
      (afterOpen\<lparr> needsAdvance := Some True \<rparr>) emptyCache)) = Some (Some True)"
  by code_simp

theorem whitespace_or_comment_call_witness:
  "getToken numberList lexemeOps mode (False, ['' '', ''1'']) afterOpen emptyCache
     = Some (Inr (Some ''ws'', (False, [''1'']), afterOpen, emptyCache)) \<and>
   getToken numberList lexemeOps mode (False, [''#'', ''1'']) afterOpen emptyCache
     = Some (Inr (Some ''comment'', (False, []), afterOpen, emptyCache))"
proof -
  have n: "needsAdvance afterOpen \<noteq> Some True \<and> \<not> sol lexemeOps (False, ['' '', ''1''])"
          "needsAdvance afterOpen \<noteq> Some True \<and> \<not> sol lexemeOps (False, [''#'', ''1''])"
    by (simp_all add: afterOpen_def startState_def pushRule_def initialState_def lexemeOps_def)
  have w: "eatWhitespace numberList (False, ['' '', ''1'']) = (True, (False, [''1'']))"
    by (simp add: numberList_def eatSpace_def)
  have c: "eatWhitespace numberList (False, [''#'', ''1'']) = (False, (False, [''#'', ''1'']))"
    by (simp add: numberList_def eatSpace_def)
  have m: "False \<or> (lineComment mode = Some isHash \<and>
      smatch lexemeOps isHash (False, [''#'', ''1'']) = Some (''#'', (False, [''1''])))"
    by (simp add: mode_def lexemeOps_def isHash_def)
  have a: "True \<or> (lineComment mode = Some isHash \<and>
      smatch lexemeOps isHash (False, [''1'']) = Some (''#'', (False, [])))"
    by simp
  note t1 = whitespace_or_comment_call [OF w a, of afterOpen emptyCache,
      THEN conjunct2, THEN conjunct1, rule_format]
  from t1 [OF n(1)]
  have 1: "getToken numberList lexemeOps mode (False, ['' '', ''1'']) afterOpen emptyCache
     = Some (Inr (Some ''ws'', (False, [''1'']), afterOpen, emptyCache))"
    by simp
  note t2 = whitespace_or_comment_call [OF c m, of afterOpen emptyCache,
      THEN conjunct2, THEN conjunct1, rule_format]
  have s: "skipToEnd lexemeOps (False, [''1'']) = (False, [])" by (simp add: lexemeOps_def)
  from t2 [OF n(2)] s
  have 2: "getToken numberList lexemeOps mode (False, [''#'', ''1'']) afterOpen emptyCache
     = Some (Inr (Some ''comment'', (False, []), afterOpen, emptyCache))"
    by simp
  from 1 2 show ?thesis by simp
qed

subsection \<open>Induction over the loop\<close>

lemma whileRule_induct [consumes 1, case_names Unwound Push Accept Failed Reject]:
  assumes run: "whileRule options' token stream state = Some res"
    and base: "\<And>state. rule state = None \<Longrightarrow> P state (Inr (Unwound state))"
    and push: "\<And>state r n res.
        rule state = Some r \<Longrightarrow> decide token stream state = Push n \<Longrightarrow>
        whileRule options' token stream (pushRule (ParseRules options') state n) = Some res \<Longrightarrow>
        P (pushRule (ParseRules options') state n) res \<Longrightarrow> P state res"
    and accept: "\<And>state r style update res.
        rule state = Some r \<Longrightarrow> decide token stream state = Accept style update \<Longrightarrow>
        whileRule options' token stream state = Some res \<Longrightarrow> P state res"
    and failed: "\<And>state r e.
        rule state = Some r \<Longrightarrow> decide token stream state = Reject \<Longrightarrow>
        unsuccessful state = Inl e \<Longrightarrow> P state (Inl e)"
    and reject: "\<And>state r state1 res.
        rule state = Some r \<Longrightarrow> decide token stream state = Reject \<Longrightarrow>
        unsuccessful state = Inr state1 \<Longrightarrow>
        whileRule options' token stream state1 = Some res \<Longrightarrow>
        P state1 res \<Longrightarrow> P state res"
  shows "P state res"
proof -
  have "options'' = options' \<longrightarrow> token' = token \<longrightarrow> stream' = stream \<longrightarrow>
        whileRule options' token stream state' = Some res' \<and> P state' res'"
    if "whileRule options'' token' stream' state' = Some res'"
    for options'' token' stream' state' res'
  proof (rule whileRule.raw_induct [where P = "\<lambda>options'' token' stream' state' res'.
        options'' = options' \<longrightarrow> token' = token \<longrightarrow> stream' = stream \<longrightarrow>
        whileRule options' token stream state' = Some res' \<and> P state' res'", OF _ that], goal_cases)
    case (1 loop o' t' s' st r')
    note IH = "1"(1) and eq = "1"(2)
    show ?case
    proof (intro impI)
      assume o: "o' = options'" and t: "t' = token" and s: "s' = stream"
      show "whileRule options' token stream st = Some r' \<and> P st r'"
      proof (cases "rule st")
        case None
        with eq have "r' = Inr (Unwound st)" by simp
        with None base show ?thesis by (simp add: whileRule_None)
      next
        case (Some r)
        show ?thesis
        proof (cases "decide token stream st")
          case (Push n)
          with Some eq o t s
          have "loop options' token stream (pushRule (ParseRules options') st n) = Some r'"
            by simp
          from IH [OF this] have
            "whileRule options' token stream (pushRule (ParseRules options') st n) = Some r'"
            "P (pushRule (ParseRules options') st n) r'"
            by simp_all
          with Some Push push show ?thesis by (simp add: whileRule_Push)
        next
          case (Accept style update)
          with Some eq o t s have "whileRule options' token stream st = Some r'"
            by (simp add: whileRule_Accept Let_def)
          with Some Accept accept show ?thesis by blast
        next
          case Reject
          show ?thesis
          proof (cases "unsuccessful st")
            case (Inl e)
            with Some Reject eq o t s have "r' = Inl e" by simp
            with Some Reject Inl failed show ?thesis by (simp add: whileRule_Reject)
          next
            case (Inr state1)
            with Some Reject eq o t s have "loop options' token stream state1 = Some r'" by simp
            from IH [OF this] have
              "whileRule options' token stream state1 = Some r'" "P state1 r'"
              by simp_all
            with Some Reject Inr reject show ?thesis by (simp add: whileRule_Reject)
          qed
        qed
      qed
    qed
  qed
  from this [OF run] show ?thesis by simp
qed

lemma whileRule_Unwound_outside:
  assumes "whileRule options' token stream state = Some (Inr (Unwound stateU))"
  shows "outside stateU = outside state"
proof -
  have "\<forall>stateU. res = Inr (Unwound stateU) \<longrightarrow> outside stateU = outside state"
    if "whileRule options' token stream state = Some res" for res
    using that
  proof (induction rule: whileRule_induct)
    case (Accept state r style update res)
    then show ?case
      by (auto simp: whileRule_Accept split: if_splits sum.splits)
  next
    case (Reject state r state1 res)
    then show ?case using unsuccessful_outside by fastforce
  qed simp_all
  with assms show ?thesis by blast
qed

lemma indentChange_opens:
  assumes "tkind token = ''Punctuation''" "opens (tvalue token)"
  shows "indentChange token state =
     state\<lparr> levels := Some ((case levels state of None \<Rightarrow> [] | Some ls \<Rightarrow> ls) @ [plus1 (indentLevel state)]) \<rparr>"
  using assms by (simp add: indentChange_def)

lemma indentChange_closes:
  assumes "tkind token = ''Punctuation''" "\<not> opens (tvalue token)" "closes (tvalue token)"
  shows "levels (indentChange token state) = Some (butlast (case levels state of None \<Rightarrow> [] | Some ls \<Rightarrow> ls))"
    and "indentLevel (indentChange token state) =
      (if butlast (case levels state of None \<Rightarrow> [] | Some ls \<Rightarrow> ls) \<noteq> [] \<and>
          js_less (Some (last (butlast (case levels state of None \<Rightarrow> [] | Some ls \<Rightarrow> ls)))) (indentLevel state)
       then Some (last (butlast (case levels state of None \<Rightarrow> [] | Some ls \<Rightarrow> ls)))
       else indentLevel state)"
  using assms by (simp_all add: indentChange_def Let_def)

lemma unwindsE:
  assumes "unwinds r"
  obtains stateU where "r = Some (Inr (Unwound stateU))"
  using assms by (cases r rule: unwinds.cases) auto

lemma styleOfE:
  assumes "styleOf r = Some a"
  obtains stream state cache where "r = Some (Inr (a, stream, state, cache))"
  using assms by (cases r rule: styleOf.cases) auto

subsection \<open>Indentation levels and a token that no rule accepts\<close>

text \<open>
  C3, as the code has it. The bookkeeping is done after the snapshot and before the
  rules are tried: the loop runs on the state with the level pushed (an opener adds
  \<open>indentLevel + 1\<close> to \<open>levels\<close>) or popped (a closer drops the last of \<open>levels\<close> and
  lowers \<open>indentLevel\<close> to the new last level when that is smaller), and the state in
  which the loop ends with no rule left still has these values. \<open>restoreState\<close> then
  puts \<open>levels\<close> and \<open>indentLevel\<close> back to their values of the snapshot, when the state
  had both fields at the snapshot.
\<close>

theorem indentation_rolled_back:
  assumes "whileRule options' token stream (indentChange token state) = Some (Inr (Unwound stateU))"
    and "levels state = Some ls" and "indentLevel state = Some i"
  shows "interpretToken options' token stream state cache =
           Some (Inr (Some ''invalidchar'', restoreState stateU (saveState cache state),
                      saveState cache state)) \<and>
         levels stateU = levels (indentChange token state) \<and>
         indentLevel stateU = indentLevel (indentChange token state) \<and>
         (tkind token = ''Punctuation'' \<and> opens (tvalue token) \<longrightarrow>
            levels (indentChange token state) = Some (ls @ [plus1 (Some i)])) \<and>
         (tkind token = ''Punctuation'' \<and> \<not> opens (tvalue token) \<and> closes (tvalue token) \<longrightarrow>
            levels (indentChange token state) = Some (butlast ls) \<and>
            indentLevel (indentChange token state) =
              (if butlast ls \<noteq> [] \<and> js_less (Some (last (butlast ls))) (Some i)
               then Some (last (butlast ls)) else Some i)) \<and>
         levels (restoreState stateU (saveState cache state)) = Some ls \<and>
         indentLevel (restoreState stateU (saveState cache state)) = Some i"
proof -
  note 1 = interpretToken_Unwound [OF assms(1), of cache]
  from whileRule_Unwound_outside [OF assms(1)]
  have 2: "levels stateU = levels (indentChange token state)"
    and 3: "indentLevel stateU = indentLevel (indentChange token state)"
    by (simp_all add: outside_def)
  have 4: "tkind token = ''Punctuation'' \<and> opens (tvalue token) \<longrightarrow>
            levels (indentChange token state) = Some (ls @ [plus1 (Some i)])"
    using assms(2,3) by (simp add: indentChange_opens)
  have 5: "tkind token = ''Punctuation'' \<and> \<not> opens (tvalue token) \<and> closes (tvalue token) \<longrightarrow>
            levels (indentChange token state) = Some (butlast ls) \<and>
            indentLevel (indentChange token state) =
              (if butlast ls \<noteq> [] \<and> js_less (Some (last (butlast ls))) (Some i)
               then Some (last (butlast ls)) else Some i)"
    using assms(2,3) by (simp add: indentChange_closes)
  have 6: "levels (restoreState stateU (saveState cache state)) = Some ls"
    and 7: "indentLevel (restoreState stateU (saveState cache state)) = Some i"
    using assms(2,3) by (simp_all add: restore_save_optional)
  from 1 2 3 4 5 6 7 show ?thesis by - (intro conjI, assumption+)
qed

text \<open>
  C3 as stated fails: after \<open>[\<close> the token \<open>(\<close> is not accepted; \<open>levels\<close> was
  \<open>[1]\<close>, the bookkeeping made it \<open>[1, 1]\<close>, and after the call it is \<open>[1]\<close> again.
  Likewise a closer that is not accepted lowers \<open>indentLevel\<close> from 2 to 0, and after
  the call it is 2 again.
\<close>

theorem indentation_kept_counterexample:
  "styleOf (getToken numberList lexemeOps mode (False, [''('']) afterOpen emptyCache)
     = Some (Some ''invalidchar'') \<and>
   levels afterOpen = Some [Num 1] \<and>
   levels (indentChange (Token ''Punctuation'' ''('') afterOpen) = Some [Num 1, Num 1] \<and>
   map_option levels (stateOf (getToken numberList lexemeOps mode (False, [''('']) afterOpen emptyCache))
     = Some (Some [Num 1]) \<and>
   styleOf (getToken numberList lexemeOps mode (False, ['')''])
      (afterOpen\<lparr> levels := Some [Num 0, Num 3], indentLevel := Some (Num 2) \<rparr>) emptyCache)
     = Some (Some ''invalidchar'') \<and>
   indentLevel (indentChange (Token ''Punctuation'' '')'')
      (afterOpen\<lparr> levels := Some [Num 0, Num 3], indentLevel := Some (Num 2) \<rparr>)) = Some (Num 0) \<and>
   map_option indentLevel (stateOf (getToken numberList lexemeOps mode (False, ['')''])
      (afterOpen\<lparr> levels := Some [Num 0, Num 3], indentLevel := Some (Num 2) \<rparr>) emptyCache))
     = Some (Some (Num 2))"
  by code_simp

theorem indentation_rolled_back_witness:
  "\<exists>state' cache'.
     interpretToken numberList (Token ''Punctuation'' ''('') (False, []) afterOpen emptyCache
       = Some (Inr (Some ''invalidchar'', state', cache')) \<and>
     levels (indentChange (Token ''Punctuation'' ''('') afterOpen) = Some [Num 1, Num 1] \<and>
     levels state' = Some [Num 1] \<and> indentLevel state' = Some (Num 0)"
proof -
  have "unwinds (whileRule numberList (Token ''Punctuation'' ''('') (False, [])
          (indentChange (Token ''Punctuation'' ''('') afterOpen))"
    by code_simp
  then obtain stateU where h:
    "whileRule numberList (Token ''Punctuation'' ''('') (False, [])
       (indentChange (Token ''Punctuation'' ''('') afterOpen) = Some (Inr (Unwound stateU))"
    by (rule unwindsE)
  have l: "levels afterOpen = Some [Num 1]" and i: "indentLevel afterOpen = Some (Num 0)"
    by (simp_all add: afterOpen_def)
  have o: "tkind (Token ''Punctuation'' ''('') = ''Punctuation'' \<and> opens (tvalue (Token ''Punctuation'' ''(''))"
    by (simp add: opens_def)
  note r = indentation_rolled_back [OF h l i, of emptyCache]
  note r1 = r [THEN conjunct1]
  note r4 = r [THEN conjunct2, THEN conjunct2, THEN conjunct2, THEN conjunct1, rule_format, OF o]
  note r6 = r [THEN conjunct2, THEN conjunct2, THEN conjunct2, THEN conjunct2, THEN conjunct2,
      THEN conjunct1]
  note r7 = r [THEN conjunct2, THEN conjunct2, THEN conjunct2, THEN conjunct2, THEN conjunct2,
      THEN conjunct2]
  from r4 have r4': "levels (indentChange (Token ''Punctuation'' ''('') afterOpen) = Some [Num 1, Num 1]"
    by simp
  from r1 r4' r6 r7 show ?thesis by blast
qed

subsection \<open>One cache for all parsers\<close>

text \<open>
  \<open>stateCache\<close> is one object of the module, shared by every parser. Whatever it
  held before the call, when a token is not accepted \<open>restoreState\<close> writes back the
  value that \<open>saveState\<close> stored in the same call for every field the state had then:
  the eight fields \<open>pushRule\<close> creates always, \<open>needsAdvance\<close>, \<open>levels\<close> and
  \<open>indentLevel\<close> when present, and the whole state when all three are present.
\<close>

lemma restore_own_fields:
  assumes "whileRule optionsA token stream (indentChange token stateA) = Some (Inr (Unwound stateU))"
  shows "interpretToken optionsA token stream stateA cacheB =
           Some (Inr (Some ''invalidchar'', restoreState stateU (saveState cacheB stateA),
                      saveState cacheB stateA)) \<and>
         level (restoreState stateU (saveState cacheB stateA)) = level stateA \<and>
         prevState (restoreState stateU (saveState cacheB stateA)) = prevState stateA \<and>
         kind (restoreState stateU (saveState cacheB stateA)) = kind stateA \<and>
         name (restoreState stateU (saveState cacheB stateA)) = name stateA \<and>
         type (restoreState stateU (saveState cacheB stateA)) = type stateA \<and>
         rule (restoreState stateU (saveState cacheB stateA)) = rule stateA \<and>
         step (restoreState stateU (saveState cacheB stateA)) = step stateA \<and>
         needsSeperator (restoreState stateU (saveState cacheB stateA)) = needsSeperator stateA \<and>
         (needsAdvance stateA \<noteq> None \<longrightarrow>
            needsAdvance (restoreState stateU (saveState cacheB stateA)) = needsAdvance stateA) \<and>
         (levels stateA \<noteq> None \<longrightarrow>
            levels (restoreState stateU (saveState cacheB stateA)) = levels stateA) \<and>
         (indentLevel stateA \<noteq> None \<longrightarrow>
            indentLevel (restoreState stateU (saveState cacheB stateA)) = indentLevel stateA) \<and>
         (needsAdvance stateA \<noteq> None \<and> levels stateA \<noteq> None \<and> indentLevel stateA \<noteq> None \<longrightarrow>
            restoreState stateU (saveState cacheB stateA) = stateA)"
proof -
  note 1 = interpretToken_Unwound [OF assms, of cacheB]
  have 2: "needsAdvance stateA \<noteq> None \<longrightarrow>
            needsAdvance (restoreState stateU (saveState cacheB stateA)) = needsAdvance stateA"
    by (auto simp: restore_save_optional)
  have 3: "levels stateA \<noteq> None \<longrightarrow>
            levels (restoreState stateU (saveState cacheB stateA)) = levels stateA"
    by (auto simp: restore_save_optional)
  have 4: "indentLevel stateA \<noteq> None \<longrightarrow>
            indentLevel (restoreState stateU (saveState cacheB stateA)) = indentLevel stateA"
    by (auto simp: restore_save_optional)
  have 5: "needsAdvance stateA \<noteq> None \<and> levels stateA \<noteq> None \<and> indentLevel stateA \<noteq> None \<longrightarrow>
            restoreState stateU (saveState cacheB stateA) = stateA"
    by (simp add: restore_save_full)
  from 1 2 3 4 5 restore_save_frame [of stateU cacheB stateA] show ?thesis
    by - (intro conjI, assumption+)
qed

text \<open>
  C2 at an input where the code lets one parser change the state of another. The
  number-list parser reads \<open>[1\<close>, which leaves its \<open>levels = [1]\<close> in \<open>stateCache\<close>.
  The blocks parser then reads \<open>foo\<close> from its fresh state, which has no \<open>levels\<close>;
  the token is not accepted, and \<open>restoreState\<close> writes the other parser's
  \<open>levels = [1]\<close> into the state. With a cache of its own (empty before the call) the
  state has no \<open>levels\<close> after the same call.
\<close>

theorem other_parser_levels_written_back:
  "styleOf (run numberList lexemeOps mode 2 (True, [''['', ''1'']) (startState numberList)
      emptyCache) = Some [Some ''punctuation'', Some ''number''] \<and>
   c_levels (cacheOf (run numberList lexemeOps mode 2 (True, [''['', ''1''])
      (startState numberList) emptyCache)) = Some [Num 1] \<and>
   levels (startState blocks) = None \<and>
   styleOf (getToken blocks lexemeOps mode (True, [''foo'']) (startState blocks) emptyCache)
     = Some (Some ''invalidchar'') \<and>
   map_option levels
     (stateOf (getToken blocks lexemeOps mode (True, [''foo'']) (startState blocks) emptyCache))
     = Some None \<and>
   styleOf (getToken blocks lexemeOps mode (True, [''foo'']) (startState blocks)
      (cacheOf (run numberList lexemeOps mode 2 (True, [''['', ''1'']) (startState numberList)
         emptyCache)))
     = Some (Some ''invalidchar'') \<and>
   map_option levels
     (stateOf (getToken blocks lexemeOps mode (True, [''foo'']) (startState blocks)
        (cacheOf (run numberList lexemeOps mode 2 (True, [''['', ''1'']) (startState numberList)
           emptyCache))))
     = Some (Some [Num 1])"
  by code_simp

subsection \<open>Unwinding after a failed match\<close>

lemma whileIntolerant_step:
  assumes "rule state \<noteq> None" "\<not> tolerant state" "whileIntolerant state = Inr stateK"
  obtains state1 where "popRule state = Inr state1" "whileIntolerant state1 = Inr stateK"
proof -
  from assms(1) obtain r where r: "rule state = Some r" by auto
  show ?thesis
  proof (cases r)
    case (Fork f)
    with r assms(3) that show ?thesis
      by (cases "popRule state") (auto simp: whileIntolerant.simps [of state])
  next
    case (Seq xs)
    show ?thesis
    proof (cases "at xs (step state)")
      case None
      with r Seq assms(3) show ?thesis by (simp add: whileIntolerant.simps [of state])
    next
      case (Some it)
      with r Seq assms(2) have "\<not> truthy (get_ofRule it)" by (simp add: tolerant_def)
      with r Seq Some assms(3) that show ?thesis
        by (cases "popRule state") (auto simp: whileIntolerant.simps [of state])
    qed
  qed
qed

lemma whileIntolerant_stops:
  assumes "rule state = None \<or> tolerant state"
  shows "whileIntolerant state = Inr state"
  using assms
  by (auto simp: tolerant_def whileIntolerant.simps [of state] split: option.splits ruledef.splits)

lemma whileIntolerant_pops:
  "whileIntolerant state = Inr stateK \<Longrightarrow>
   \<exists>k. pops k state = Inr stateK \<and>
       (\<forall>j<k. \<exists>stateJ. pops j state = Inr stateJ \<and> rule stateJ \<noteq> None \<and> \<not> tolerant stateJ) \<and>
       (rule stateK = None \<or> tolerant stateK)"
proof (induction "length (prevState state)" arbitrary: state rule: less_induct)
  case less
  show ?case
  proof (cases "rule state = None \<or> tolerant state")
    case True
    with less.prems whileIntolerant_stops [OF True] have "stateK = state" by simp
    with True have "pops 0 state = Inr stateK \<and>
       (\<forall>j<0. \<exists>stateJ. pops j state = Inr stateJ \<and> rule stateJ \<noteq> None \<and> \<not> tolerant stateJ) \<and>
       (rule stateK = None \<or> tolerant stateK)" by simp
    then show ?thesis by blast
  next
    case False
    then have f: "rule state \<noteq> None" "\<not> tolerant state" by simp_all
    from whileIntolerant_step [OF f less.prems] obtain state1
      where p: "popRule state = Inr state1" and w: "whileIntolerant state1 = Inr stateK"
      by blast
    from less.hyps [OF popRule_shorter [OF p] w] obtain k where
      k: "pops k state1 = Inr stateK"
        "\<forall>j<k. \<exists>stateJ. pops j state1 = Inr stateJ \<and> rule stateJ \<noteq> None \<and> \<not> tolerant stateJ"
        "rule stateK = None \<or> tolerant stateK"
      by blast
    have 1: "pops (Suc k) state = Inr stateK" using p k(1) by simp
    have 2: "\<exists>stateJ. pops j state = Inr stateJ \<and> rule stateJ \<noteq> None \<and> \<not> tolerant stateJ"
      if "j < Suc k" for j
    proof (cases j)
      case 0
      with f show ?thesis by simp
    next
      case (Suc j')
      with that have "j' < k" by simp
      with k(2) Suc p show ?thesis by simp
    qed
    from 1 2 k(3) show ?thesis by blast
  qed
qed

lemma advanceRule_False_tolerant:
  assumes "tolerant state"
  shows "advanceRule state False =
     (if awaitsSeparator state then Inr (state\<lparr> needsSeperator := Some False \<rparr>)
      else whileCompleted (state\<lparr> needsSeperator := Some False,
                                   step := Some (plus1 (step state)) \<rparr>))"
proof -
  from assms obtain xs it where r: "rule state = Some (Seq xs)" and a: "at xs (step state) = Some it"
    by (auto simp: tolerant_def split: option.splits ruledef.splits)
  then have l: "isList state = Inr (get_isList it)" by (simp add: isList_def)
  show ?thesis
  proof (cases "get_isList it \<and> hasSeparator state")
    case False
    with l show ?thesis
      by (auto simp: advanceRule_def Let_def nextStep_def awaitsSeparator_def)
  next
    case True
    show ?thesis
    proof (cases "needsSeperator state = Some True")
      case t: True
      with True l show ?thesis
        by (simp add: advanceRule_def Let_def toggleSeperator_def awaitsSeparator_def)
    next
      case f: False
      with True l show ?thesis
        by (simp add: advanceRule_def Let_def toggleSeperator_def nextStep_def awaitsSeparator_def)
    qed
  qed
qed

text \<open>
  C6, as the code has it. When \<open>unsuccessful\<close> returns, it has popped some number \<open>k\<close>
  of frames, each of which had a rule and did not tolerate the failure (a forking rule,
  or a sequence whose item at the current step is no \<open>opt\<close> or \<open>list\<close> wrapper), and
  has stopped at the first state with no rule left or with a tolerant frame. With no rule
  left that state is the result. At a tolerant frame \<open>advanceRule(state, false)\<close> runs:
  when the frame is a list that awaits its separator, it only clears \<open>needsSeperator\<close>
  and the frame stays at the list; otherwise it clears \<open>needsSeperator\<close>, moves the step
  past the \<open>opt\<close> or \<open>list\<close> item (matched zero times) and pops the frames that are
  completed. After a failed match the loop then tries the same token on the resulting
  state.
\<close>

theorem unwind_on_failure:
  assumes "unsuccessful state = Inr state'"
  shows "\<exists>k stateK.
           pops k state = Inr stateK \<and>
           (\<forall>j<k. \<exists>stateJ. pops j state = Inr stateJ \<and> rule stateJ \<noteq> None \<and> \<not> tolerant stateJ) \<and>
           (if rule stateK = None then state' = stateK
            else tolerant stateK \<and>
                 advanceRule stateK False = Inr state' \<and>
                 (if awaitsSeparator stateK
                  then state' = stateK\<lparr> needsSeperator := Some False \<rparr>
                  else whileCompleted (stateK\<lparr> needsSeperator := Some False,
                                               step := Some (plus1 (step stateK)) \<rparr>)
                         = Inr state')) \<and>
           (\<forall>options' token stream r.
              rule state = Some r \<and> decide token stream state = Reject \<longrightarrow>
              whileRule options' token stream state = whileRule options' token stream state')"
proof -
  from assms obtain stateK where w: "whileIntolerant state = Inr stateK"
    by (cases "whileIntolerant state") (auto simp: unsuccessful_def)
  from whileIntolerant_pops [OF w] obtain k where
    k: "pops k state = Inr stateK"
       "\<forall>j<k. \<exists>stateJ. pops j state = Inr stateJ \<and> rule stateJ \<noteq> None \<and> \<not> tolerant stateJ"
       "rule stateK = None \<or> tolerant stateK"
    by blast
  have 3: "if rule stateK = None then state' = stateK
           else tolerant stateK \<and>
                 advanceRule stateK False = Inr state' \<and>
                 (if awaitsSeparator stateK
                  then state' = stateK\<lparr> needsSeperator := Some False \<rparr>
                  else whileCompleted (stateK\<lparr> needsSeperator := Some False,
                                               step := Some (plus1 (step stateK)) \<rparr>)
                         = Inr state')"
  proof (cases "rule stateK")
    case None
    with assms w show ?thesis by (simp add: unsuccessful_def)
  next
    case (Some r)
    with k(3) have t: "tolerant stateK" by simp
    from assms w Some have a: "advanceRule stateK False = Inr state'"
      by (simp add: unsuccessful_def)
    from a advanceRule_False_tolerant [OF t] Some t show ?thesis
      by (cases "awaitsSeparator stateK") auto
  qed
  have 4: "\<forall>options' token stream r.
              rule state = Some r \<and> decide token stream state = Reject \<longrightarrow>
              whileRule options' token stream state = whileRule options' token stream state'"
    using assms by (simp add: whileRule_Reject)
  from k(1,2) 3 4 show ?thesis by blast
qed

text \<open>
  C6 as stated fails: after \<open>[1\<close> the list awaits its separator. The frame is
  tolerant, and the unwinding for the token \<open>2\<close> leaves the step at the list (step 1)
  and clears \<open>needsSeperator\<close>: the list is not passed over as matched zero times, and
  the same token is accepted as its next element.
\<close>

theorem matched_zero_times_counterexample:
  "tolerant (afterOpen\<lparr> needsSeperator := Some True \<rparr>) \<and>
   step (afterOpen\<lparr> needsSeperator := Some True \<rparr>) = Some (Num 1) \<and>
   map_sum id step (unsuccessful (afterOpen\<lparr> needsSeperator := Some True \<rparr>)) = Inr (Some (Num 1)) \<and>
   map_sum id needsSeperator (unsuccessful (afterOpen\<lparr> needsSeperator := Some True \<rparr>))
     = Inr (Some False) \<and>
   returns (whileRule numberList (Token ''Number'' ''2'') (False, [])
      (afterOpen\<lparr> needsSeperator := Some True \<rparr>)) = Some (Some ''number'')"
  by code_simp

lemma not_isl_E:
  assumes "\<not> isl r"
  obtains x where "r = Inr x"
  using assms by (cases r) auto

lemma tolerant_first:
  assumes "tolerant state" and "pops k state = Inr stateK"
    and "\<forall>j<k. \<exists>stateJ. pops j state = Inr stateJ \<and> rule stateJ \<noteq> None \<and> \<not> tolerant stateJ"
  shows "stateK = state"
proof (cases k)
  case 0
  with assms(2) show ?thesis by simp
next
  case (Suc n)
  then have "0 < k" by simp
  with assms(3) obtain stateJ where "pops 0 state = Inr stateJ" "\<not> tolerant stateJ" by blast
  with assms(1) show ?thesis by simp
qed

theorem unwind_on_failure_witness:
  "unsuccessful atOption
     = Inr (atOption\<lparr> needsSeperator := Some False, step := Some (Num 2) \<rparr>) \<and>
   returns (whileRule blocks (Token ''Punctuation'' ''}'') (False, []) atOption)
     = Some (Some ''punctuation'') \<and>
   unsuccessful (afterOpen\<lparr> needsSeperator := Some True \<rparr>)
     = Inr (afterOpen\<lparr> needsSeperator := Some False \<rparr>)"
proof -
  let ?b = "Seq [p ''{'' None, opt (t ''Name'' (Some ''property'')), p ''}'' None]
              :: (unit, lexemes) ruledef"
  have rb: "rule atOption = Some ?b"
    by (simp add: atOption_def inBlock_def pushRule_def blocks_def)
  have sb: "step atOption = Some (Num 1)" by (simp add: atOption_def)
  have tb: "tolerant atOption" by code_simp
  have nb: "\<not> awaitsSeparator atOption" by code_simp
  have db: "decide (Token ''Punctuation'' ''}'') (False, []) atOption = Reject" by code_simp
  have "\<not> isl (unsuccessful atOption)" by code_simp
  then obtain state1 where u1: "unsuccessful atOption = Inr state1" by (rule not_isl_E)
  from unwind_on_failure [OF u1] obtain k stateK where
    k: "pops k atOption = Inr stateK"
       "\<forall>j<k. \<exists>stateJ. pops j atOption = Inr stateJ \<and> rule stateJ \<noteq> None \<and> \<not> tolerant stateJ"
       "if rule stateK = None then state1 = stateK
        else tolerant stateK \<and>
             advanceRule stateK False = Inr state1 \<and>
             (if awaitsSeparator stateK
              then state1 = stateK\<lparr> needsSeperator := Some False \<rparr>
              else whileCompleted (stateK\<lparr> needsSeperator := Some False,
                                           step := Some (plus1 (step stateK)) \<rparr>)
                     = Inr state1)"
       "\<forall>(options' :: (unit, lexemes, string \<Rightarrow> bool) options) token stream r.
          rule atOption = Some r \<and> decide token stream atOption = Reject \<longrightarrow>
          whileRule options' token stream atOption = whileRule options' token stream state1"
    by blast
  from tolerant_first [OF tb k(1,2)] have e: "stateK = atOption" .
  from k(3) rb nb have "whileCompleted (atOption\<lparr> needsSeperator := Some False,
      step := Some (plus1 (step atOption)) \<rparr>) = Inr state1"
    unfolding e by simp
  moreover have "whileCompleted (atOption\<lparr> needsSeperator := Some False,
      step := Some (plus1 (step atOption)) \<rparr>)
      = Inr (atOption\<lparr> needsSeperator := Some False, step := Some (Num 2) \<rparr>)"
    by (simp add: sb rb whileCompleted_stop(2) [where r = "?b"])
  ultimately have s1: "state1 = atOption\<lparr> needsSeperator := Some False, step := Some (Num 2) \<rparr>"
    by simp
  from k(4) rb db have "whileRule blocks (Token ''Punctuation'' ''}'') (False, []) atOption
      = whileRule blocks (Token ''Punctuation'' ''}'') (False, []) state1"
    by blast
  moreover have "returns (whileRule blocks (Token ''Punctuation'' ''}'') (False, [])
      (atOption\<lparr> needsSeperator := Some False, step := Some (Num 2) \<rparr>))
      = Some (Some ''punctuation'')"
    by code_simp
  ultimately have 2: "returns (whileRule blocks (Token ''Punctuation'' ''}'') (False, []) atOption)
     = Some (Some ''punctuation'')"
    by (simp add: s1)
  have ta: "tolerant (afterOpen\<lparr> needsSeperator := Some True \<rparr>)" by code_simp
  have aa: "awaitsSeparator (afterOpen\<lparr> needsSeperator := Some True \<rparr>)" by code_simp
  have ra: "rule (afterOpen\<lparr> needsSeperator := Some True \<rparr>) \<noteq> None"
    by (simp add: afterOpen_def startState_def pushRule_def numberList_rule)
  have "\<not> isl (unsuccessful (afterOpen\<lparr> needsSeperator := Some True \<rparr>))" by code_simp
  then obtain state2 where u2: "unsuccessful (afterOpen\<lparr> needsSeperator := Some True \<rparr>) = Inr state2"
    by (rule not_isl_E)
  from unwind_on_failure [OF u2] obtain k2 stateK2 where
    k2: "pops k2 (afterOpen\<lparr> needsSeperator := Some True \<rparr>) = Inr stateK2"
       "\<forall>j<k2. \<exists>stateJ. pops j (afterOpen\<lparr> needsSeperator := Some True \<rparr>) = Inr stateJ \<and>
           rule stateJ \<noteq> None \<and> \<not> tolerant stateJ"
       "if rule stateK2 = None then state2 = stateK2
        else tolerant stateK2 \<and>
             advanceRule stateK2 False = Inr state2 \<and>
             (if awaitsSeparator stateK2
              then state2 = stateK2\<lparr> needsSeperator := Some False \<rparr>
              else whileCompleted (stateK2\<lparr> needsSeperator := Some False,
                                            step := Some (plus1 (step stateK2)) \<rparr>)
                     = Inr state2)"
    by blast
  from tolerant_first [OF ta k2(1,2)] have e2: "stateK2 = afterOpen\<lparr> needsSeperator := Some True \<rparr>" .
  from k2(3) ra aa have s2: "state2 = afterOpen\<lparr> needsSeperator := Some False \<rparr>"
    unfolding e2 by simp
  from u1 s1 2 u2 s2 show ?thesis by simp
qed

subsection \<open>Lists with a separator\<close>

lemma unwrap_list: "truthy (Some elem) \<Longrightarrow> unwrap (Wrapper elem l s) = elem"
  by (simp add: unwrap_def)

text \<open>
  C7, as the code has it. At a \<open>list\<close> item with a separator: while
  \<open>needsSeperator\<close> is not set the token is tried on the element, accepting an element
  sets \<open>needsSeperator\<close>, and a failure there moves past the list. While
  \<open>needsSeperator\<close> is set the token is tried on the separator only, and accepting the
  separator clears \<open>needsSeperator\<close>. When the separator does not match,
  \<open>unsuccessful\<close> clears \<open>needsSeperator\<close> as well and stays at the list, so the loop
  tries the same token on the element next.
\<close>

theorem separator_toggle:
  assumes "rule state = Some (Seq xs)"
    and "at xs (step state) = Some (Wrapper elem True (Some sep))"
    and "truthy (Some elem)" and "truthy (Some sep)"
  shows "(needsSeperator state \<noteq> Some True \<longrightarrow>
            decide token stream state = attempt elem token \<and>
            advanceRule state True = Inr (state\<lparr> needsSeperator := Some True \<rparr>) \<and>
            advanceRule state False =
              whileCompleted (state\<lparr> needsSeperator := Some False,
                                      step := Some (plus1 (step state)) \<rparr>)) \<and>
         (needsSeperator state = Some True \<longrightarrow>
            decide token stream state = attempt (unwrap sep) token \<and>
            advanceRule state True = Inr (state\<lparr> needsSeperator := Some False \<rparr>) \<and>
            unsuccessful state = Inr (state\<lparr> needsSeperator := Some False \<rparr>))"
proof -
  have l: "isList state = Inr True" and h: "hasSeparator state"
    using assms by (simp_all add: isList_def hasSeparator_def)
  have e: "expectedItem token stream state =
      (if needsSeperator state = Some True then Some sep else Some (Wrapper elem True (Some sep)))"
    using assms by (simp add: expectedItem_def)
  have w: "whileIntolerant state = Inr state"
    using assms by (simp add: whileIntolerant_stop)
  have 1: "needsSeperator state \<noteq> Some True \<longrightarrow>
            decide token stream state = attempt elem token \<and>
            advanceRule state True = Inr (state\<lparr> needsSeperator := Some True \<rparr>) \<and>
            advanceRule state False =
              whileCompleted (state\<lparr> needsSeperator := Some False,
                                      step := Some (plus1 (step state)) \<rparr>)"
    using l h e assms(3)
    by (simp add: decide_def unwrap_list advanceRule_def toggleSeperator_def nextStep_def)
  have 2: "needsSeperator state = Some True \<longrightarrow>
            decide token stream state = attempt (unwrap sep) token \<and>
            advanceRule state True = Inr (state\<lparr> needsSeperator := Some False \<rparr>) \<and>
            unsuccessful state = Inr (state\<lparr> needsSeperator := Some False \<rparr>)"
    using l h e w assms(1,4)
    by (simp add: decide_def advanceRule_def toggleSeperator_def unsuccessful_def)
  from 1 2 show ?thesis by - (intro conjI, assumption+)
qed

text \<open>
  C7 as stated fails: in \<open>[ 1 2 ]\<close> the two numbers are both accepted as elements of
  the list, with no separator between them.
\<close>

theorem two_elements_counterexample:
  "styleOf (run numberList lexemeOps mode 4 (True, [''['', ''1'', ''2'', '']''])
      (startState numberList) emptyCache)
   = Some [Some ''punctuation'', Some ''number'', Some ''number'', Some ''punctuation'']"
  by code_simp

theorem separator_toggle_witness:
  "decide (Token ''Number'' ''2'') (False, []) afterOpen = Accept (Some ''number'') None \<and>
   advanceRule afterOpen True = Inr (afterOpen\<lparr> needsSeperator := Some True \<rparr>) \<and>
   decide (Token ''Number'' ''2'') (False, []) (afterOpen\<lparr> needsSeperator := Some True \<rparr>) = Reject \<and>
   decide (Token ''Punctuation'' '','') (False, []) (afterOpen\<lparr> needsSeperator := Some True \<rparr>)
     = Accept (Some ''punctuation'') None \<and>
   unsuccessful (afterOpen\<lparr> needsSeperator := Some True \<rparr>)
     = Inr (afterOpen\<lparr> needsSeperator := Some False \<rparr>)"
proof -
  let ?xs = "[p ''['' None, list (t ''Number'' (Some ''number'')) (Some (p '','' None)), p '']'' None]
               :: unit item list"
  let ?elem = "Terminal (Some ''number'') (\<lambda>token. tkind token = ''Number'') None :: unit item"
  let ?sep = "Terminal (Some ''punctuation'')
                (\<lambda>token. tkind token = ''Punctuation'' \<and> tvalue token = '','') None :: unit item"
  have r: "rule afterOpen = Some (Seq ?xs)"
          "rule (afterOpen\<lparr> needsSeperator := Some True \<rparr>) = Some (Seq ?xs)"
    by (simp_all add: afterOpen_def startState_def pushRule_def numberList_rule)
  have a: "at ?xs (step afterOpen) = Some (Wrapper ?elem True (Some ?sep))"
          "at ?xs (step (afterOpen\<lparr> needsSeperator := Some True \<rparr>)) = Some (Wrapper ?elem True (Some ?sep))"
    by (simp_all add: afterOpen_def list_def t_def p_def)
  have te: "truthy (Some ?elem)" and ts: "truthy (Some ?sep)" by simp_all
  have n1: "needsSeperator afterOpen \<noteq> Some True"
    by (simp add: afterOpen_def startState_def pushRule_def)
  have n2: "needsSeperator (afterOpen\<lparr> needsSeperator := Some True \<rparr>) = Some True" by simp
  note w1 = separator_toggle [OF r(1) a(1) te ts, THEN conjunct1, rule_format, OF n1,
      of "Token ''Number'' ''2''" "(False, [])"]
  note w2 = separator_toggle [OF r(2) a(2) te ts, THEN conjunct2, rule_format, OF n2]
  note w2a = w2 [of "Token ''Number'' ''2''" "(False, [])"]
  note w2b = w2 [of "Token ''Punctuation'' '',''" "(False, [])"]
  have u: "unwrap ?sep = ?sep" by (simp add: unwrap_def)
  from w1 have 1: "decide (Token ''Number'' ''2'') (False, []) afterOpen = Accept (Some ''number'') None"
    by simp
  from w1 have 2: "advanceRule afterOpen True = Inr (afterOpen\<lparr> needsSeperator := Some True \<rparr>)"
    by simp
  from w2a u have 3: "decide (Token ''Number'' ''2'') (False, []) (afterOpen\<lparr> needsSeperator := Some True \<rparr>) = Reject"
    by simp
  from w2b u have 4: "decide (Token ''Punctuation'' '','') (False, []) (afterOpen\<lparr> needsSeperator := Some True \<rparr>)
     = Accept (Some ''punctuation'') None"
    by simp
  from w2a have 5: "unsuccessful (afterOpen\<lparr> needsSeperator := Some True \<rparr>)
     = Inr (afterOpen\<lparr> needsSeperator := Some False \<rparr>)"
    by simp
  from 1 2 3 4 5 show ?thesis by - (intro conjI, assumption+)
qed

subsection \<open>butNot\<close>

lemma callMatch_Native: "callMatch heap token (Match (Native f)) = Some (f token)"
  by (subst callMatch.simps) simp

lemma callMatch_ButNot:
  "callMatch heap token (Match (ButNot ruleMatch exclusions)) =
     Option.bind (callMatch heap token (Match ruleMatch))
       (\<lambda>b. if b then callMatch heap token (Every exclusions) else Some False)"
  by (subst callMatch.simps) simp

lemma callMatch_Every_Nil: "callMatch heap token (Every []) = Some True"
  by (subst callMatch.simps) simp

lemma callMatch_Every_Cons:
  "callMatch heap token (Every (e # es)) =
     Option.bind (callMatch heap token (Match (t_match (heap e))))
       (\<lambda>b. if \<not> b then callMatch heap token (Every es) else Some False)"
  by (subst callMatch.simps) simp

lemma callMatch_Every:
  "callMatch heap token (Every es) = Some True \<longleftrightarrow>
     (\<forall>e\<in>set es. callMatch heap token (Match (t_match (heap e))) = Some False)"
proof (induction es)
  case Nil
  show ?case by (simp add: callMatch_Every_Nil)
next
  case (Cons e es)
  show ?case
  proof (cases "callMatch heap token (Match (t_match (heap e)))")
    case None
    then show ?thesis by (simp add: callMatch_Every_Cons)
  next
    case (Some b)
    with Cons.IH show ?thesis by (cases b) (simp_all add: callMatch_Every_Cons)
  qed
qed

text \<open>
  C10. \<open>butNot(rule, exclusions)\<close> returns the address it was given, and changes no
  other object and no other property of the rule (the style stays). In the heap
  afterwards, where every holder of the address finds the changed object, the rule's
  \<open>match\<close> returns true for a token exactly when the function that was in \<open>match\<close>
  before returns true for it and the \<open>match\<close> of every exclusion returns false.
\<close>

theorem butNot_augments:
  assumes "butNot heap r exclusions = (heap', r')"
  shows "r' = r \<and>
         t_style (heap' r) = t_style (heap r) \<and>
         t_update (heap' r) = t_update (heap r) \<and>
         (\<forall>a. a \<noteq> r \<longrightarrow> heap' a = heap a) \<and>
         (\<forall>token.
            callMatch heap' token (Match (t_match (heap' r'))) = Some True \<longleftrightarrow>
              callMatch heap' token (Match (t_match (heap r))) = Some True \<and>
              (\<forall>e\<in>set exclusions.
                 callMatch heap' token (Match (t_match (heap' e))) = Some False))"
proof -
  from assms have h: "heap' = heap (r := (heap r)\<lparr> t_match := ButNot (t_match (heap r)) exclusions \<rparr>)"
    and r: "r' = r"
    by (auto simp: butNot_def Let_def)
  have m: "t_match (heap' r) = ButNot (t_match (heap r)) exclusions" by (simp add: h)
  have 5: "callMatch heap' token (Match (t_match (heap' r'))) = Some True \<longleftrightarrow>
              callMatch heap' token (Match (t_match (heap r))) = Some True \<and>
              (\<forall>e\<in>set exclusions.
                 callMatch heap' token (Match (t_match (heap' e))) = Some False)" for token
  proof (cases "callMatch heap' token (Match (t_match (heap r)))")
    case None
    then show ?thesis by (simp add: r m callMatch_ButNot)
  next
    case (Some b)
    then show ?thesis
      by (cases b) (simp_all add: r m callMatch_ButNot callMatch_Every)
  qed
  have 2: "t_style (heap' r) = t_style (heap r)" and 3: "t_update (heap' r) = t_update (heap r)"
    and 4: "\<forall>a. a \<noteq> r \<longrightarrow> heap' a = heap a"
    by (simp_all add: h)
  from r 2 3 4 5 show ?thesis by blast
qed

theorem butNot_augments_witness:
  "snd (butNot words 0 [1, 2]) = 0 \<and>
   callMatch (fst (butNot words 0 [1, 2])) (Token ''Name'' ''foo'')
     (Match (t_match (fst (butNot words 0 [1, 2]) 0))) = Some True \<and>
   callMatch (fst (butNot words 0 [1, 2])) (Token ''Name'' ''on'')
     (Match (t_match (fst (butNot words 0 [1, 2]) 0))) \<noteq> Some True"
proof -
  have b: "butNot words 0 [1, 2] = (fst (butNot words 0 [1, 2]), snd (butNot words 0 [1, 2]))"
    by simp
  note w = butNot_augments [OF b]
  note w1 = w [THEN conjunct1]
  note w5 = w [THEN conjunct2, THEN conjunct2, THEN conjunct2, THEN conjunct2, rule_format]
  have o: "callMatch (fst (butNot words 0 [1, 2])) (Token ''Name'' ''foo'')
             (Match (t_match (words 0))) = Some True"
    by code_simp
  have e: "\<forall>e\<in>set [1, 2]. callMatch (fst (butNot words 0 [1, 2])) (Token ''Name'' ''foo'')
             (Match (t_match (fst (butNot words 0 [1, 2]) e))) = Some False"
    by code_simp
  have n: "\<not> (\<forall>e\<in>set [1, 2]. callMatch (fst (butNot words 0 [1, 2])) (Token ''Name'' ''on'')
             (Match (t_match (fst (butNot words 0 [1, 2]) e))) = Some False)"
    by code_simp
  from w5 [of "Token ''Name'' ''foo''"] o e w1
  have 1: "callMatch (fst (butNot words 0 [1, 2])) (Token ''Name'' ''foo'')
     (Match (t_match (fst (butNot words 0 [1, 2]) 0))) = Some True"
    by simp
  from w5 [of "Token ''Name'' ''on''"] n w1
  have 2: "callMatch (fst (butNot words 0 [1, 2])) (Token ''Name'' ''on'')
     (Match (t_match (fst (butNot words 0 [1, 2]) 0))) \<noteq> Some True"
    by simp
  from w1 1 2 show ?thesis by - (intro conjI, assumption+)
qed

subsection \<open>Taking a parse up again from a snapshot\<close>

lemma grows_refl [simp]: "grows state state"
  by (simp add: grows_def)

lemma grows_trans: "grows a b \<Longrightarrow> grows b c \<Longrightarrow> grows a c"
  by (simp add: grows_def)

lemma outside_grows: "outside state' = outside state \<Longrightarrow> grows state state'"
  by (simp add: grows_def outside_def)

lemma grows_outside: "grows a b \<Longrightarrow> outside b' = outside b \<Longrightarrow> grows a b'"
  by (simp add: grows_def outside_def)

lemma outside_grows_left: "outside a' = outside a \<Longrightarrow> grows a' b \<Longrightarrow> grows a b"
  by (simp add: grows_def outside_def)

lemma stale_grows: "\<not> stale cache state \<Longrightarrow> grows state state' \<Longrightarrow> \<not> stale cache state'"
  by (auto simp: stale_def grows_def)

lemma emptyCache_fresh [simp]: "\<not> stale emptyCache state"
  by (simp add: stale_def emptyCache_def)

lemma saveState_fresh: "\<not> stale cache state \<Longrightarrow> saveState cache state = saveState emptyCache state"
  by (cases "needsAdvance state"; cases "levels state"; cases "indentLevel state")
     (simp_all add: stale_def saveState_def emptyCache_def)

lemma interpretToken_fresh:
  "\<not> stale cache state \<Longrightarrow>
   interpretToken options' token stream state cache =
   interpretToken options' token stream state emptyCache"
  using saveState_fresh [of cache state] by (simp add: interpretToken_def)

lemma indentChange_grows: "grows state (indentChange token state)"
  by (simp add: indentChange_def grows_def Let_def)

lemma callUpdate_grows: "keepsFields options' \<Longrightarrow> grows state (callUpdate options' update state token)"
  by (cases update) (simp_all add: callUpdate_def keepsFields_def)

lemma whileRule_grows:
  assumes k: "keepsFields options'"
    and w: "whileRule options' token stream state = Some (Inr (Return style state'))"
  shows "grows state state'"
proof -
  have "\<forall>style state'. res = Inr (Return style state') \<longrightarrow> grows state state'"
    if "whileRule options' token stream state = Some res" for res
    using that
  proof (induction rule: whileRule_induct)
    case (Unwound state)
    show ?case by simp
  next
    case (Push state r n res)
    have "outside (pushRule (ParseRules options') state n) = outside state" by simp
    with Push.IH show ?case by (blast intro: outside_grows_left)
  next
    case (Accept state r style update res)
    note u = callUpdate_grows [OF k, of state update token]
    show ?case
    proof (cases "tkind token = ''Punctuation''")
      case True
      show ?thesis
      proof (cases "advanceRule (callUpdate options' update state token) True")
        case (Inl e)
        with True Accept show ?thesis by (auto simp: whileRule_Accept)
      next
        case (Inr state2)
        from grows_outside [OF u advanceRule_outside [OF Inr]] True Inr Accept
        show ?thesis by (auto simp: whileRule_Accept)
      qed
    next
      case False
      have "grows state ((callUpdate options' update state token)\<lparr> needsAdvance := Some True \<rparr>)"
        using u by (simp add: grows_def)
      with False Accept show ?thesis by (auto simp: whileRule_Accept)
    qed
  next
    case (Failed state r e)
    show ?case by simp
  next
    case (Reject state r state1 res)
    from unsuccessful_outside [OF Reject(3)] Reject.IH show ?case
      by (blast intro: outside_grows_left)
  qed
  with w show ?thesis by blast
qed

lemma saveState_optional:
  "c_needsAdvance (saveState cache state) =
     (case needsAdvance state of None \<Rightarrow> c_needsAdvance cache | Some v \<Rightarrow> Some v)"
  "c_levels (saveState cache state) =
     (case levels state of None \<Rightarrow> c_levels cache | Some v \<Rightarrow> Some v)"
  "c_indentLevel (saveState cache state) =
     (case indentLevel state of None \<Rightarrow> c_indentLevel cache | Some v \<Rightarrow> Some v)"
  by (simp_all add: saveState_def)

lemma saveState_not_stale:
  assumes "\<not> stale cache state" "grows state state'"
  shows "\<not> stale (saveState cache state) state'"
  using assms unfolding stale_def grows_def saveState_optional
  by (cases "needsAdvance state"; cases "levels state"; cases "indentLevel state") auto

lemma restoreState_not_stale:
  "\<not> stale (saveState cache state) (restoreState stateU (saveState cache state))"
  unfolding stale_def restore_save_optional saveState_optional
  by (cases "needsAdvance state"; cases "levels state"; cases "indentLevel state")
     (auto split: option.splits)

lemma interpretToken_not_stale:
  assumes k: "keepsFields options'" and n: "\<not> stale cache state"
    and i: "interpretToken options' token stream state cache = Some (Inr (style, state', cache'))"
  shows "\<not> stale cache' state'"
proof (cases "whileRule options' token stream (indentChange token state)")
  case None
  with i show ?thesis by (simp add: interpretToken_def)
next
  case (Some res)
  show ?thesis
  proof (cases res)
    case (Inl e)
    with Some i show ?thesis by (simp add: interpretToken_def)
  next
    case (Inr ended)
    show ?thesis
    proof (cases ended)
      case (Return style2 state2)
      with Some Inr i have e: "state' = state2" "cache' = saveState cache state"
        by (auto simp: interpretToken_def Let_def)
      from Some Inr Return have "grows (indentChange token state) state2"
        by (simp add: whileRule_grows [OF k])
      with indentChange_grows have "grows state state2" by (rule grows_trans)
      with n show ?thesis unfolding e by (rule saveState_not_stale)
    next
      case (Unwound stateU)
      with Some Inr i have e: "state' = restoreState stateU (saveState cache state)"
        "cache' = saveState cache state"
        by (auto simp: interpretToken_def Let_def)
      show ?thesis unfolding e by (rule restoreState_not_stale)
    qed
  qed
qed

lemma deferredAdvance_grows:
  assumes "deferredAdvance state = Inr state1"
  shows "grows state state1"
  using deferredAdvance_fields [OF assms] by (auto simp: grows_def split: if_splits)

lemma initialIndent_grows: "initialIndent ops editor' stream state = Inr state1 \<Longrightarrow> grows state state1"
  by (auto simp: initialIndent_def grows_def split: if_splits option.splits)

text \<open>What a call does before it touches the cache.\<close>

lemma getToken_cases:
  fixes options' :: "('u, 's, 'p) options" and state :: "('u, 's) state"
  obtains
    (Error) e where "\<And>cache. getToken options' ops editor' stream state cache = Some (Inl e)"
  | (Skip) style stream1 state2 where "grows state state2"
      "\<And>cache. getToken options' ops editor' stream state cache =
         Some (Inr (style, stream1, state2, cache))"
  | (Lexed) token stream2 state2 where "grows state state2"
      "\<And>cache. getToken options' ops editor' stream state cache =
         (case interpretToken options' token stream2 state2 cache of
            None \<Rightarrow> None
          | Some (Inl e) \<Rightarrow> Some (Inl e)
          | Some (Inr (style, state3, cache1)) \<Rightarrow> Some (Inr (style, stream2, state3, cache1)))"
proof (cases "deferredAdvance state")
  case (Inl e)
  then have "getToken options' ops editor' stream state cache = Some (Inl e)" for cache
    by (simp add: getToken_def)
  then show ?thesis by (rule Error)
next
  case d: (Inr state1)
  show ?thesis
  proof (cases "initialIndent ops editor' stream state1")
    case (Inl e)
    with d have "getToken options' ops editor' stream state cache = Some (Inl e)" for cache
      by (simp add: getToken_def)
    then show ?thesis by (rule Error)
  next
    case i: (Inr state2)
    have g: "grows state state2"
      using deferredAdvance_grows [OF d] initialIndent_grows [OF i] by (rule grows_trans)
    obtain ws stream1 where w: "eatWhitespace options' stream = (ws, stream1)"
      by (cases "eatWhitespace options' stream")
    show ?thesis
    proof (cases ws)
      case True
      with d i w have "getToken options' ops editor' stream state cache =
          Some (Inr (Some ''ws'', stream1, state2, cache))" for cache
        by (simp add: getToken_def)
      with g show ?thesis by (rule Skip)
    next
      case False
      show ?thesis
      proof (cases "case lineComment editor' of None \<Rightarrow> None | Some c \<Rightarrow> smatch ops c stream1")
        case (Some m)
        obtain matched stream2 where m: "m = (matched, stream2)" by (cases m)
        from d i w False Some m have "getToken options' ops editor' stream state cache =
            Some (Inr (Some ''comment'', skipToEnd ops stream2, state2, cache))" for cache
          by (simp add: getToken_def)
        with g show ?thesis by (rule Skip)
      next
        case None
        show ?thesis
        proof (cases "lex ops (LexRules options') stream1")
          case n: None
          from d i w False None n have "getToken options' ops editor' stream state cache =
              Some (Inr (Some ''invalidchar'', skipNonSpace ops stream1, state2, cache))" for cache
            by (simp add: getToken_def)
          with g show ?thesis by (rule Skip)
        next
          case (Some l)
          obtain token stream2 where l: "l = (token, stream2)" by (cases l)
          from d i w False None Some l have "getToken options' ops editor' stream state cache =
             (case interpretToken options' token stream2 state2 cache of
                None \<Rightarrow> None
              | Some (Inl e) \<Rightarrow> Some (Inl e)
              | Some (Inr (style, state3, cache1)) \<Rightarrow> Some (Inr (style, stream2, state3, cache1)))"
            for cache
            by (simp add: getToken_def)
          with g show ?thesis by (rule Lexed)
        qed
      qed
    qed
  qed
qed

lemma getToken_fresh:
  assumes "\<not> stale cache state"
  shows "seen (getToken options' ops editor' stream state cache) =
         seen (getToken options' ops editor' stream state emptyCache)"
proof (cases rule: getToken_cases [where state = state and options' = options' and ops = ops
      and editor' = editor' and stream = stream])
  case (Error e)
  then show ?thesis by simp
next
  case (Skip style stream1 state2)
  then show ?thesis by simp
next
  case (Lexed token stream2 state2)
  from assms Lexed(1) have "\<not> stale cache state2" by (rule stale_grows)
  from interpretToken_fresh [OF this, of options' token stream2] Lexed(2) show ?thesis by simp
qed

lemma getToken_not_stale:
  assumes k: "keepsFields options'" and n: "\<not> stale cache state"
    and g: "getToken options' ops editor' stream state cache =
              Some (Inr (style, stream', state', cache'))"
  shows "\<not> stale cache' state'"
proof (cases rule: getToken_cases [where state = state and options' = options' and ops = ops
      and editor' = editor' and stream = stream])
  case (Error e)
  with g show ?thesis by simp
next
  case (Skip style1 stream1 state2)
  with g have "state' = state2" "cache' = cache" by simp_all
  with n Skip(1) show ?thesis by (simp add: stale_grows)
next
  case (Lexed token stream2 state2)
  from n Lexed(1) have n2: "\<not> stale cache state2" by (rule stale_grows)
  from g Lexed(2) have "interpretToken options' token stream2 state2 cache =
      Some (Inr (style, state', cache'))"
    by (auto split: option.splits sum.splits)
  from interpretToken_not_stale [OF k n2 this] show ?thesis .
qed

lemma getToken_same_cache:
  assumes "\<not> stale cache1 state" "\<not> stale cache2 state"
    and "getToken options' ops editor' stream state cache1 =
           Some (Inr (style, stream', state', cache1'))"
  shows "\<exists>cache2'. getToken options' ops editor' stream state cache2 =
           Some (Inr (style, stream', state', cache2')) \<and>
           (cache2' = cache1' \<or> (cache1' = cache1 \<and> cache2' = cache2))"
proof (cases rule: getToken_cases [where state = state and options' = options' and ops = ops
      and editor' = editor' and stream = stream])
  case (Error e)
  with assms(3) show ?thesis by simp
next
  case (Skip style1 stream1 state2)
  with assms(3) show ?thesis by simp
next
  case (Lexed token stream2 state2)
  from assms(1,2) Lexed(1) have "\<not> stale cache1 state2" "\<not> stale cache2 state2"
    by (simp_all add: stale_grows)
  then have "interpretToken options' token stream2 state2 cache1 =
      interpretToken options' token stream2 state2 cache2"
    by (simp add: interpretToken_fresh [of cache1 state2 options' token stream2]
        interpretToken_fresh [of cache2 state2 options' token stream2])
  with assms(3) Lexed(2) show ?thesis by simp
qed

lemma seen_None [simp]: "seen r = None \<longleftrightarrow> r = None"
  by (cases r rule: seen.cases) simp_all

lemma seen_Inl [simp]: "seen r = Some (Inl e) \<longleftrightarrow> r = Some (Inl e)"
  by (cases r rule: seen.cases) simp_all

lemma seen_run_Suc:
  assumes "getToken options' ops editor' stream state cache =
             Some (Inr (style, stream1, state1, cache1))"
  shows "seen (run options' ops editor' (Suc n) stream state cache) =
           (case seen (run options' ops editor' n stream1 state1 cache1) of
              None \<Rightarrow> None
            | Some (Inl e) \<Rightarrow> Some (Inl e)
            | Some (Inr (styles, rest)) \<Rightarrow> Some (Inr (style # styles, rest)))"
proof (cases "run options' ops editor' n stream1 state1 cache1" rule: seen.cases)
  case 1
  with assms show ?thesis by simp
next
  case (2 e)
  with assms show ?thesis by simp
next
  case (3 a stream2 state2 cache2)
  with assms show ?thesis by simp
qed

lemma run_fresh:
  assumes k: "keepsFields options'"
  shows "\<not> stale cache1 state \<Longrightarrow> \<not> stale cache2 state \<Longrightarrow>
         seen (run options' ops editor' n stream state cache1) =
         seen (run options' ops editor' n stream state cache2)"
proof (induction n arbitrary: stream state cache1 cache2)
  case 0
  show ?case by simp
next
  case (Suc n)
  have f: "seen (getToken options' ops editor' stream state cache1) =
           seen (getToken options' ops editor' stream state cache2)"
    using getToken_fresh [OF Suc.prems(1), where options' = options' and ops = ops
        and editor' = editor' and stream = stream]
      getToken_fresh [OF Suc.prems(2), where options' = options' and ops = ops
        and editor' = editor' and stream = stream]
    by simp
  show ?case
  proof (cases "getToken options' ops editor' stream state cache1" rule: seen.cases)
    case 1
    with f [symmetric] have "getToken options' ops editor' stream state cache2 = None" by simp
    with 1 show ?thesis by simp
  next
    case (2 e)
    with f [symmetric] have "getToken options' ops editor' stream state cache2 = Some (Inl e)"
      by simp
    with 2 show ?thesis by simp
  next
    case (3 style stream1 state1 cache1')
    from getToken_same_cache [OF Suc.prems 3] obtain cache2' where
      g2: "getToken options' ops editor' stream state cache2 =
             Some (Inr (style, stream1, state1, cache2'))"
      by blast
    have "\<not> stale cache1' state1" "\<not> stale cache2' state1"
      using getToken_not_stale [OF k Suc.prems(1) 3] getToken_not_stale [OF k Suc.prems(2) g2]
      by simp_all
    from Suc.IH [OF this] show ?thesis
      by (simp only: seen_run_Suc [OF 3] seen_run_Suc [OF g2])
  qed
qed

lemma run_add:
  "run options' ops editor' (i + k) stream state cache =
     (case run options' ops editor' i stream state cache of
        None \<Rightarrow> None
      | Some (Inl e) \<Rightarrow> Some (Inl e)
      | Some (Inr (styles, stream1, state1, cache1)) \<Rightarrow>
          (case run options' ops editor' k stream1 state1 cache1 of
             None \<Rightarrow> None
           | Some (Inl e) \<Rightarrow> Some (Inl e)
           | Some (Inr (styles', rest)) \<Rightarrow> Some (Inr (styles @ styles', rest))))"
proof (induction i arbitrary: stream state cache)
  case 0
  show ?case by (auto split: option.splits sum.splits)
next
  case (Suc i)
  show ?case
  proof (cases "getToken options' ops editor' stream state cache" rule: seen.cases)
    case 1
    then show ?thesis by simp
  next
    case (2 e)
    then show ?thesis by simp
  next
    case (3 style stream1 state1 cache1)
    then show ?thesis
      by (simp add: Suc.IH split: option.splits sum.splits)
  qed
qed

lemma run_not_stale:
  assumes k: "keepsFields options'"
  shows "\<not> stale cache state \<Longrightarrow>
         run options' ops editor' i stream state cache =
           Some (Inr (styles, stream', state', cache')) \<Longrightarrow>
         \<not> stale cache' state'"
proof (induction i arbitrary: stream state cache styles)
  case 0
  then show ?case by simp
next
  case (Suc i)
  show ?case
  proof (cases "getToken options' ops editor' stream state cache" rule: seen.cases)
    case 1
    with Suc.prems(2) show ?thesis by simp
  next
    case (2 e)
    with Suc.prems(2) show ?thesis by simp
  next
    case (3 style stream1 state1 cache1)
    note n1 = getToken_not_stale [OF k Suc.prems(1) 3]
    from Suc.prems(2) 3 obtain styles1 where
      "run options' ops editor' i stream1 state1 cache1 =
         Some (Inr (styles1, stream', state', cache'))"
      by (auto split: option.splits sum.splits)
    from Suc.IH [OF n1 this] show ?thesis .
  qed
qed

text \<open>
  Let the update callbacks of the grammar remove no field, and let a pass of \<open>i\<close> calls
  start with a cache that is not stale for its state. Take the state after these calls
  as the snapshot, and resume from it, at the stream position reached, with any cache
  that is not stale for the snapshot. Then the styles, the stream and the state of \<open>k\<close>
  more calls are the same as in the one pass of \<open>i + k\<close> calls.
\<close>

lemma restart_when_not_stale:
  assumes "keepsFields options'" and "\<not> stale cache state"
    and "run options' ops editor' i stream state cache =
           Some (Inr (styles, stream_i, state_i, cache_i))"
    and "\<not> stale cache' state_i"
  shows "seen (run options' ops editor' (i + k) stream state cache) =
           (case seen (run options' ops editor' k stream_i state_i cache') of
              None \<Rightarrow> None
            | Some (Inl e) \<Rightarrow> Some (Inl e)
            | Some (Inr (styles', rest)) \<Rightarrow> Some (Inr (styles @ styles', rest))) \<and>
         seen (getToken options' ops editor' stream_i state_i cache') =
           seen (getToken options' ops editor' stream_i state_i cache_i)"
proof -
  note n = run_not_stale [OF assms(1,2,3)]
  have 1: "seen (run options' ops editor' k stream_i state_i cache_i) =
           seen (run options' ops editor' k stream_i state_i cache')"
    using n assms(4) by (rule run_fresh [OF assms(1)])
  have 2: "seen (run options' ops editor' (i + k) stream state cache) =
           (case seen (run options' ops editor' k stream_i state_i cache_i) of
              None \<Rightarrow> None
            | Some (Inl e) \<Rightarrow> Some (Inl e)
            | Some (Inr (styles', rest)) \<Rightarrow> Some (Inr (styles @ styles', rest)))"
    unfolding run_add [of options' ops editor' i k] assms(3)
    by (cases "run options' ops editor' k stream_i state_i cache_i" rule: seen.cases) simp_all
  have 3: "seen (getToken options' ops editor' stream_i state_i cache') =
           seen (getToken options' ops editor' stream_i state_i cache_i)"
    using getToken_fresh [OF n, where options' = options' and ops = ops
        and editor' = editor' and stream = stream_i]
      getToken_fresh [OF assms(4), where options' = options' and ops = ops
        and editor' = editor' and stream = stream_i]
    by simp
  from 1 2 3 show ?thesis by simp
qed

text \<open>
  C8 at an input where the result of \<open>getToken\<close> depends on more than the fields of the
  state. In one pass over \<open>foo foo\<close> from the start state and an empty cache, the state
  after the second \<open>foo\<close> has no \<open>levels\<close>. Taking the parse up from the snapshot of
  the state after the first \<open>foo\<close>, at the same stream position, while \<open>stateCache\<close>
  holds what another document left (\<open>levels = [1]\<close>), the state after the second
  \<open>foo\<close> has \<open>levels = [1]\<close>.
\<close>

theorem restart_differs_with_stale_cache:
  "styleOf (run blocks lexemeOps mode 1 (True, [''foo'', ''foo'']) (startState blocks) emptyCache)
     = Some [Some ''invalidchar''] \<and>
   streamOf (run blocks lexemeOps mode 1 (True, [''foo'', ''foo'']) (startState blocks) emptyCache)
     = Some (False, [''foo'']) \<and>
   map_option levels
     (stateOf (run blocks lexemeOps mode 2 (True, [''foo'', ''foo'']) (startState blocks) emptyCache))
     = Some None \<and>
   map_option levels
     (stateOf (run blocks lexemeOps mode 1 (False, [''foo''])
        (the (stateOf (run blocks lexemeOps mode 1 (True, [''foo'', ''foo'']) (startState blocks)
           emptyCache)))
        (cacheOf (run numberList lexemeOps mode 2 (True, [''['', ''1'']) (startState numberList)
           emptyCache))))
     = Some (Some [Num 1])"
  by code_simp

end
